theory Spec2Isabelle
  imports Main "HOL-Library.Word" "HOL-Library.Sublist"
begin

section \<open>Bytes, strings and array reads\<close>

text \<open>
  The parser of \<^verbatim>\<open>utils/multipart-parser.js\<close> works on a \<^verbatim>\<open>Uint8Array\<close> (a list of
  8-bit words) and on JavaScript strings (lists of 16-bit code units).
\<close>

type_synonym byte = "8 word"
type_synonym codeunit = "16 word"
type_synonym jsstring = "codeunit list"

definition js :: "string \<Rightarrow> jsstring" where
  "js s = map (\<lambda>c. of_nat (of_char c)) s"

definition ascii :: "string \<Rightarrow> byte list" where
  "ascii s = map (\<lambda>c. of_nat (of_char c)) s"

definition CRLF :: "byte list" where
  "CRLF = [13, 10]"

definition CRLFCRLF :: "byte list" where
  "CRLFCRLF = [13, 10, 13, 10]"

text \<open>\<^verbatim>\<open>a[i]\<close>: a read outside the array is \<^verbatim>\<open>undefined\<close>, here \<open>None\<close>.\<close>

definition byteAt :: "'a list \<Rightarrow> nat \<Rightarrow> 'a option" where
  "byteAt xs i = (if i < length xs then Some (xs ! i) else None)"

text \<open>\<^verbatim>\<open>a.slice(from, to)\<close> for non-negative arguments.\<close>

definition slice :: "'a list \<Rightarrow> nat \<Rightarrow> nat \<Rightarrow> 'a list" where
  "slice xs from to = take (to - from) (drop from xs)"

section \<open>findSequence and findBoundary\<close>

text \<open>
  The inner loop of \<^verbatim>\<open>findSequence\<close>: \<^verbatim>\<open>for (j = 0; j < seqLen; j++) if (data[i + j] !== sequence[j])
  { found = false; break; }\<close>. The parameter \<^verbatim>\<open>data\<close> is called \<open>bytes\<close> here.
\<close>

function seqMatches :: "byte list \<Rightarrow> byte list \<Rightarrow> nat \<Rightarrow> nat \<Rightarrow> bool" where
  "seqMatches bytes sequence i j =
     (if j < length sequence then
        (if byteAt bytes (i + j) \<noteq> byteAt sequence j then False
         else seqMatches bytes sequence i (j + 1))
      else True)"
  by pat_completeness auto
termination
  by (relation "measure (\<lambda>(bytes, sequence, i, j). length sequence - j)") auto

declare seqMatches.simps [simp del]

text \<open>
  The outer loop: \<^verbatim>\<open>for (i = startPos; i <= dataLen - seqLen; i++)\<close>; the bound is a signed
  difference. \<open>None\<close> is the result \<^verbatim>\<open>-1\<close>.
\<close>

function findLoop :: "byte list \<Rightarrow> byte list \<Rightarrow> nat \<Rightarrow> nat option" where
  "findLoop bytes sequence i =
     (if int i \<le> int (length bytes) - int (length sequence) then
        (if seqMatches bytes sequence i 0 then Some i
         else findLoop bytes sequence (i + 1))
      else None)"
  by pat_completeness auto
termination
  by (relation "measure (\<lambda>(bytes, sequence, i). length bytes + 1 - i)") auto

declare findLoop.simps [simp del]

definition findSequence :: "byte list \<Rightarrow> byte list \<Rightarrow> nat \<Rightarrow> nat option" where
  "findSequence bytes sequence startPos = findLoop bytes sequence startPos"

definition findBoundary :: "byte list \<Rightarrow> byte list \<Rightarrow> nat \<Rightarrow> nat option" where
  "findBoundary bytes boundary startPos = findSequence bytes boundary startPos"

text \<open>
  The search as a function on lists, for the proofs: the offset of the leftmost occurrence of
  the sequence. \<open>findSequence_firstOccurrence\<close> below shows that the loops compute it.
\<close>

fun firstOccurrence :: "byte list \<Rightarrow> byte list \<Rightarrow> nat option" where
  "firstOccurrence sequence [] = (if sequence = [] then Some 0 else None)"
| "firstOccurrence sequence (x # xs) =
     (if prefix sequence (x # xs) then Some 0
      else map_option Suc (firstOccurrence sequence xs))"

section \<open>TextEncoder and TextDecoder (UTF-8)\<close>

text \<open>
  \<^verbatim>\<open>new TextEncoder().encode(s)\<close>: the string is read as code points, a surrogate
  that is not part of a pair becoming U+FFFD, and each code point is written in UTF-8.
\<close>

definition isHighSurrogate :: "codeunit \<Rightarrow> bool" where
  "isHighSurrogate c = (0xD800 \<le> c \<and> c \<le> 0xDBFF)"

definition isLowSurrogate :: "codeunit \<Rightarrow> bool" where
  "isLowSurrogate c = (0xDC00 \<le> c \<and> c \<le> 0xDFFF)"

definition scalarOf :: "codeunit \<Rightarrow> nat" where
  "scalarOf c = (if isHighSurrogate c \<or> isLowSurrogate c then 0xFFFD else unat c)"

fun toCodePoints :: "jsstring \<Rightarrow> nat list" where
  "toCodePoints [] = []"
| "toCodePoints [c] = [scalarOf c]"
| "toCodePoints (c # d # s) =
     (if isHighSurrogate c \<and> isLowSurrogate d
      then (0x10000 + (unat c - 0xD800) * 0x400 + (unat d - 0xDC00)) # toCodePoints s
      else scalarOf c # toCodePoints (d # s))"

definition utf8Bytes :: "nat \<Rightarrow> byte list" where
  "utf8Bytes cp =
     (if cp < 0x80 then [of_nat cp]
      else if cp < 0x800 then [of_nat (0xC0 + cp div 0x40), of_nat (0x80 + cp mod 0x40)]
      else if cp < 0x10000 then
        [of_nat (0xE0 + cp div 0x1000), of_nat (0x80 + cp div 0x40 mod 0x40),
         of_nat (0x80 + cp mod 0x40)]
      else
        [of_nat (0xF0 + cp div 0x40000), of_nat (0x80 + cp div 0x1000 mod 0x40),
         of_nat (0x80 + cp div 0x40 mod 0x40), of_nat (0x80 + cp mod 0x40)])"

definition textEncode :: "jsstring \<Rightarrow> byte list" where
  "textEncode s = concat (map utf8Bytes (toCodePoints s))"

text \<open>
  \<^verbatim>\<open>new TextDecoder().decode(bytes)\<close>: the UTF-8 decoder of the Encoding Standard, not
  fatal. The arguments are the decoder's code point, bytes seen, bytes needed and lower and
  upper boundary; a malformed sequence gives U+FFFD and the offending byte is read again.
\<close>

function utf8DecodeLoop :: "nat \<Rightarrow> nat \<Rightarrow> nat \<Rightarrow> byte \<Rightarrow> byte \<Rightarrow> byte list \<Rightarrow> nat list" where
  "utf8DecodeLoop cp seen needed lo hi [] = (if needed \<noteq> 0 then [0xFFFD] else [])"
| "utf8DecodeLoop cp seen needed lo hi (b # bs) =
     (if needed = 0 then
        (if b \<le> 0x7F then unat b # utf8DecodeLoop 0 0 0 0x80 0xBF bs
         else if 0xC2 \<le> b \<and> b \<le> 0xDF then
           utf8DecodeLoop (unat b mod 0x20) 0 1 0x80 0xBF bs
         else if 0xE0 \<le> b \<and> b \<le> 0xEF then
           utf8DecodeLoop (unat b mod 0x10) 0 2
             (if b = 0xE0 then 0xA0 else 0x80) (if b = 0xED then 0x9F else 0xBF) bs
         else if 0xF0 \<le> b \<and> b \<le> 0xF4 then
           utf8DecodeLoop (unat b mod 8) 0 3
             (if b = 0xF0 then 0x90 else 0x80) (if b = 0xF4 then 0x8F else 0xBF) bs
         else 0xFFFD # utf8DecodeLoop 0 0 0 0x80 0xBF bs)
      else
        (if \<not> (lo \<le> b \<and> b \<le> hi) then 0xFFFD # utf8DecodeLoop 0 0 0 0x80 0xBF (b # bs)
         else if seen + 1 \<noteq> needed then
           utf8DecodeLoop (cp * 0x40 + unat b mod 0x40) (seen + 1) needed 0x80 0xBF bs
         else (cp * 0x40 + unat b mod 0x40) # utf8DecodeLoop 0 0 0 0x80 0xBF bs))"
  by pat_completeness auto
termination
  by (relation "measure (\<lambda>(cp, seen, needed, lo, hi, bs). 2 * length bs + (if needed = 0 then 0 else 1))")
    auto

declare utf8DecodeLoop.simps [simp del]

definition unitsOf :: "nat \<Rightarrow> jsstring" where
  "unitsOf cp =
     (if cp < 0x10000 then [of_nat cp]
      else [of_nat (0xD800 + (cp - 0x10000) div 0x400), of_nat (0xDC00 + (cp - 0x10000) mod 0x400)])"

text \<open>A byte order mark at the start of the output is dropped (\<^verbatim>\<open>ignoreBOM\<close> is false).\<close>

definition dropBOM :: "nat list \<Rightarrow> nat list" where
  "dropBOM cps = (case cps of [] \<Rightarrow> [] | c # cs \<Rightarrow> if c = 0xFEFF then cs else c # cs)"

definition textDecode :: "byte list \<Rightarrow> jsstring" where
  "textDecode bytes = concat (map unitsOf (dropBOM (utf8DecodeLoop 0 0 0 0x80 0xBF bytes)))"

section \<open>String operations of the platform\<close>

text \<open>
  \<^verbatim>\<open>String.prototype.trim\<close> removes white space and line terminators (as code units) from
  both ends.
\<close>

definition isWhiteSpace :: "codeunit \<Rightarrow> bool" where
  "isWhiteSpace c =
     (c \<in> set [0x09, 0x0A, 0x0B, 0x0C, 0x0D, 0x20, 0xA0, 0x1680, 0x2028, 0x2029, 0x202F,
                0x205F, 0x3000, 0xFEFF]
      \<or> (0x2000 \<le> c \<and> c \<le> 0x200A))"

definition trim :: "jsstring \<Rightarrow> jsstring" where
  "trim s = rev (dropWhile isWhiteSpace (rev (dropWhile isWhiteSpace s)))"

text \<open>
  \<^verbatim>\<open>String.prototype.toLowerCase\<close>. On a string of ASCII code units it maps \<^verbatim>\<open>A-Z\<close> to
  \<^verbatim>\<open>a-z\<close>. On any other string it applies the Unicode case mapping of the engine, a table
  that is no part of the repository: the parameter \<open>L\<close>, about which nothing is assumed.
\<close>

definition asciiLower :: "codeunit \<Rightarrow> codeunit" where
  "asciiLower c = (if 0x41 \<le> c \<and> c \<le> 0x5A then c + 0x20 else c)"

definition toLowerCase :: "(jsstring \<Rightarrow> jsstring) \<Rightarrow> jsstring \<Rightarrow> jsstring" where
  "toLowerCase L s = (if list_all (\<lambda>c. c < 0x80) s then map asciiLower s else L s)"

text \<open>\<^verbatim>\<open>s.indexOf(':')\<close> for a single code unit; \<open>None\<close> is \<^verbatim>\<open>-1\<close>.\<close>

fun indexOf :: "jsstring \<Rightarrow> codeunit \<Rightarrow> nat option" where
  "indexOf [] c = None"
| "indexOf (x # xs) c = (if x = c then Some 0 else map_option Suc (indexOf xs c))"

text \<open>\<^verbatim>\<open>s.includes(t)\<close>.\<close>

fun strIncludes :: "jsstring \<Rightarrow> jsstring \<Rightarrow> bool" where
  "strIncludes [] t = (t = [])"
| "strIncludes (x # xs) t = (prefix t (x # xs) \<or> strIncludes xs t)"

text \<open>
  \<^verbatim>\<open>headerText.split(/\r?\n/)\<close>: a line ends at a line feed, and a carriage return just
  before that line feed belongs to the separator. The first argument is the line read so far.
\<close>

fun splitLines :: "jsstring \<Rightarrow> jsstring \<Rightarrow> jsstring list" where
  "splitLines cur [] = [cur]"
| "splitLines cur [c] = (if c = 0x0A then [cur, []] else [cur @ [c]])"
| "splitLines cur (c # d # s) =
     (if c = 0x0D \<and> d = 0x0A then cur # splitLines [] s
      else if c = 0x0A then cur # splitLines [] (d # s)
      else splitLines (cur @ [c]) (d # s))"

text \<open>
  \<^verbatim>\<open>cd.match(/name="([^"]+)"/)\<close> and \<^verbatim>\<open>cd.match(/filename="([^"]+)"/)\<close>: the leftmost place where
  the key (with its opening quote) is followed by a non-empty run of code units other than
  the quote and then by a quote; the result is the run (group 1), \<open>None\<close> is \<^verbatim>\<open>null\<close>.
\<close>

definition quote :: codeunit where
  "quote = 0x22"

fun matchQuoted :: "jsstring \<Rightarrow> jsstring \<Rightarrow> jsstring option" where
  "matchQuoted key [] = None"
| "matchQuoted key (c # s) =
     (if prefix key (c # s) then
        (let rest = drop (length key) (c # s);
             run = takeWhile (\<lambda>x. x \<noteq> quote) rest
         in if run \<noteq> [] \<and> length run < length rest then Some run
            else matchQuoted key s)
      else matchQuoted key s)"

definition nameKey :: jsstring where
  "nameKey = js ''name='' @ [quote]"

definition filenameKey :: jsstring where
  "filenameKey = js ''filename='' @ [quote]"

text \<open>
  \<^verbatim>\<open>contentType.match(/boundary=([^;]+)/i)\<close>. Without the \<^verbatim>\<open>u\<close> flag a code unit matches
  an ASCII letter of the pattern when both have the same upper case, and a code unit outside
  ASCII never does.
\<close>

definition asciiUpper :: "codeunit \<Rightarrow> codeunit" where
  "asciiUpper c = (if 0x61 \<le> c \<and> c \<le> 0x7A then c - 0x20 else c)"

definition sameLetter :: "codeunit \<Rightarrow> codeunit \<Rightarrow> bool" where
  "sameLetter p c = (asciiUpper p = asciiUpper c)"

definition boundaryKey :: jsstring where
  "boundaryKey = js ''boundary=''"

fun boundaryMatch :: "jsstring \<Rightarrow> jsstring option" where
  "boundaryMatch [] = None"
| "boundaryMatch (c # s) =
     (if length boundaryKey \<le> length (c # s)
         \<and> list_all2 sameLetter boundaryKey (take (length boundaryKey) (c # s)) then
        (let run = takeWhile (\<lambda>x. x \<noteq> 0x3B) (drop (length boundaryKey) (c # s))
         in if run \<noteq> [] then Some run else boundaryMatch s)
      else boundaryMatch s)"

text \<open>
  \<^verbatim>\<open>.replace(/^["']|["']$/g, '')\<close>: one quote character at the start and one at the end
  (of what is left) are removed, whichever of the two kinds they are.
\<close>

definition isQuoteChar :: "codeunit \<Rightarrow> bool" where
  "isQuoteChar c = (c = 0x22 \<or> c = 0x27)"

definition stripLeadingQuote :: "jsstring \<Rightarrow> jsstring" where
  "stripLeadingQuote s = (case s of [] \<Rightarrow> [] | c # t \<Rightarrow> if isQuoteChar c then t else c # t)"

definition stripTrailingQuote :: "jsstring \<Rightarrow> jsstring" where
  "stripTrailingQuote s = (if s \<noteq> [] \<and> isQuoteChar (last s) then butlast s else s)"

definition stripQuotes :: "jsstring \<Rightarrow> jsstring" where
  "stripQuotes s = stripTrailingQuote (stripLeadingQuote s)"

section \<open>parseHeaders\<close>

text \<open>
  The object \<^verbatim>\<open>headers\<close> is a map from property names to values. \<^verbatim>\<open>headers[key] = value\<close>
  stores the value, except for the key \<^verbatim>\<open>__proto__\<close>: on an ordinary object that assignment
  calls the inherited accessor, which ignores a value that is a string.
\<close>

type_synonym headers = "jsstring \<rightharpoonup> jsstring"

definition protoKey :: jsstring where
  "protoKey = js ''__proto__''"

definition setProperty :: "headers \<Rightarrow> jsstring \<Rightarrow> jsstring \<Rightarrow> headers" where
  "setProperty h k v = (if k = protoKey then h else h(k \<mapsto> v))"

text \<open>The body of the loop over the lines.\<close>

definition headerLine :: "(jsstring \<Rightarrow> jsstring) \<Rightarrow> headers \<Rightarrow> jsstring \<Rightarrow> headers" where
  "headerLine L h line =
     (case indexOf line 0x3A of
        None \<Rightarrow> h
      | Some colonPos \<Rightarrow>
          if colonPos > 0 then
            setProperty h (toLowerCase L (trim (take colonPos line)))
              (trim (drop (colonPos + 1) line))
          else h)"

definition parseHeaders :: "(jsstring \<Rightarrow> jsstring) \<Rightarrow> jsstring \<Rightarrow> headers" where
  "parseHeaders L headerText = foldl (headerLine L) Map.empty (splitLines [] headerText)"

section \<open>parsePart\<close>

record part =
  name :: jsstring
  filename :: "jsstring option"
  contentType :: "jsstring option"
  data :: "byte list"

text \<open>\<^verbatim>\<open>headers['content-type'] || null\<close>: an absent or empty value is \<^verbatim>\<open>null\<close>.\<close>

definition orNull :: "jsstring option \<Rightarrow> jsstring option" where
  "orNull v = (case v of None \<Rightarrow> None | Some s \<Rightarrow> if s = [] then None else Some s)"

definition parsePart :: "(jsstring \<Rightarrow> jsstring) \<Rightarrow> byte list \<Rightarrow> part option" where
  "parsePart L partData =
     (case findSequence partData [13, 10, 13, 10] 0 of
        None \<Rightarrow> None
      | Some headerEndPos \<Rightarrow>
          let headerBytes = slice partData 0 headerEndPos;
              contentBytes = drop (headerEndPos + 4) partData;
              contentEnd = length contentBytes;
              contentEnd' =
                (if contentEnd \<ge> 2 \<and> byteAt contentBytes (contentEnd - 2) = Some 13
                    \<and> byteAt contentBytes (contentEnd - 1) = Some 10
                 then contentEnd - 2 else contentEnd);
              actualContent = slice contentBytes 0 contentEnd';
              headerText = textDecode headerBytes;
              hdrs = parseHeaders L headerText
          in case orNull (hdrs (js ''content-disposition'')) of
               None \<Rightarrow> None
             | Some contentDisposition \<Rightarrow>
                 Some \<lparr> name = (case matchQuoted nameKey contentDisposition of
                                  Some n \<Rightarrow> n | None \<Rightarrow> []),
                        filename = matchQuoted filenameKey contentDisposition,
                        contentType = orNull (hdrs (js ''content-type'')),
                        data = actualContent \<rparr>)"

section \<open>parseMultipartParts\<close>

definition boundaryBytesOf :: "jsstring \<Rightarrow> byte list" where
  "boundaryBytesOf boundary = textEncode (js ''--'' @ boundary)"

text \<open>\<^verbatim>\<open>if (uint8Array[position] === 13 && uint8Array[position + 1] === 10) position += 2\<close>.\<close>

definition skipCRLF :: "byte list \<Rightarrow> nat \<Rightarrow> nat" where
  "skipCRLF uint8Array position =
     (if byteAt uint8Array position = Some 13 \<and> byteAt uint8Array (position + 1) = Some 10
      then position + 2 else position)"

text \<open>\<^verbatim>\<open>if (part) parts.push(part)\<close>.\<close>

definition pushPart :: "part list \<Rightarrow> part option \<Rightarrow> part list" where
  "pushPart parts p = (case p of None \<Rightarrow> parts | Some x \<Rightarrow> parts @ [x])"

text \<open>\<^verbatim>\<open>uint8Array[position] === 45 && uint8Array[position + 1] === 45\<close>.\<close>

definition isTerminal :: "byte list \<Rightarrow> nat \<Rightarrow> bool" where
  "isTerminal uint8Array position =
     (byteAt uint8Array position = Some 45 \<and> byteAt uint8Array (position + 1) = Some 45)"

text \<open>
  The \<^verbatim>\<open>while\<close> loop terminates because every boundary pattern starts with the two
  dashes that \<^verbatim>\<open>parseMultipartParts\<close> puts in front of it, so the position grows.
\<close>

lemma findLoop_ge: "findLoop bytes sequence i = Some r \<Longrightarrow> i \<le> r"
proof (induction bytes sequence i rule: findLoop.induct)
  case (1 bytes sequence i)
  show ?case
  proof (cases "seqMatches bytes sequence i 0")
    case True
    with "1.prems" show ?thesis
      by (simp add: findLoop.simps [of bytes sequence i] split: if_splits)
  next
    case False
    with "1.prems" have c: "int i \<le> int (length bytes) - int (length sequence)"
      and r: "findLoop bytes sequence (i + 1) = Some r"
      by (simp_all add: findLoop.simps [of bytes sequence i] split: if_splits)
    from "1.IH" [OF c False r] show ?thesis by simp
  qed
qed

lemma findBoundary_ge: "findBoundary bytes boundary startPos = Some r \<Longrightarrow> startPos \<le> r"
  by (simp add: findBoundary_def findSequence_def findLoop_ge)

lemma scalarOf_dash: "scalarOf 0x2D = 0x2D"
  by (simp add: scalarOf_def isHighSurrogate_def isLowSurrogate_def)

lemma toCodePoints_dash: "toCodePoints (0x2D # s) = 0x2D # toCodePoints s"
  by (cases s) (simp_all add: scalarOf_dash isHighSurrogate_def)

lemma boundaryBytesOf_dashes: "boundaryBytesOf boundary = 45 # 45 # textEncode boundary"
proof -
  have "js ''--'' @ boundary = 0x2D # 0x2D # boundary"
    by (simp add: js_def)
  then have "toCodePoints (js ''--'' @ boundary) = 0x2D # 0x2D # toCodePoints boundary"
    by (simp only: toCodePoints_dash)
  then show ?thesis
    by (simp add: boundaryBytesOf_def textEncode_def utf8Bytes_def)
qed

lemma boundaryBytesOf_length: "2 \<le> length (boundaryBytesOf boundary)"
  by (simp add: boundaryBytesOf_dashes)

lemma skipCRLF_ge: "position \<le> skipCRLF uint8Array position"
  by (simp add: skipCRLF_def)

function parseLoop ::
  "(jsstring \<Rightarrow> jsstring) \<Rightarrow> byte list \<Rightarrow> jsstring \<Rightarrow> nat \<Rightarrow> part list \<Rightarrow> part list" where
  "parseLoop L uint8Array boundary position parts =
     (if position < length uint8Array then
        (case findBoundary uint8Array (boundaryBytesOf boundary) (skipCRLF uint8Array position) of
           None \<Rightarrow> parts
         | Some nextBoundaryPos \<Rightarrow>
             if isTerminal uint8Array (nextBoundaryPos + length (boundaryBytesOf boundary))
             then pushPart parts
                    (parsePart L (slice uint8Array (skipCRLF uint8Array position) nextBoundaryPos))
             else parseLoop L uint8Array boundary
                    (nextBoundaryPos + length (boundaryBytesOf boundary))
                    (pushPart parts
                       (parsePart L (slice uint8Array (skipCRLF uint8Array position) nextBoundaryPos))))
      else parts)"
  by pat_completeness auto
termination
proof (relation "measure (\<lambda>(L, uint8Array, boundary, position, parts). length uint8Array - position)")
  show "wf (measure (\<lambda>(L, uint8Array, boundary, position, parts). length uint8Array - position))"
    by simp
next
  fix L :: "jsstring \<Rightarrow> jsstring" and uint8Array :: "byte list" and boundary :: jsstring
    and position :: nat and parts :: "part list" and x2 :: nat
  assume lt: "position < length uint8Array"
    and f: "findBoundary uint8Array (boundaryBytesOf boundary) (skipCRLF uint8Array position) = Some x2"
  from findBoundary_ge [OF f] skipCRLF_ge [of position uint8Array] have "position \<le> x2"
    by simp
  with boundaryBytesOf_length [of boundary] lt
  show "((L, uint8Array, boundary, x2 + length (boundaryBytesOf boundary),
           pushPart parts (parsePart L (slice uint8Array (skipCRLF uint8Array position) x2))),
          (L, uint8Array, boundary, position, parts))
        \<in> measure (\<lambda>(L, uint8Array, boundary, position, parts). length uint8Array - position)"
    by simp
qed

declare parseLoop.simps [simp del]

definition parseMultipartParts ::
  "(jsstring \<Rightarrow> jsstring) \<Rightarrow> byte list \<Rightarrow> jsstring \<Rightarrow> part list" where
  "parseMultipartParts L uint8Array boundary =
     (case findBoundary uint8Array (boundaryBytesOf boundary) 0 of
        None \<Rightarrow> []
      | Some position \<Rightarrow>
          parseLoop L uint8Array boundary (position + length (boundaryBytesOf boundary)) [])"

section \<open>parseMultipartFormData\<close>

text \<open>
  A \<^verbatim>\<open>FormData\<close> is the list of its entries in the order of the \<^verbatim>\<open>append\<close> calls. An entry
  is a string or a \<^verbatim>\<open>File\<close> with its name, type and bytes.
\<close>

datatype formValue = StringValue jsstring | FileValue jsstring jsstring "byte list"

type_synonym formData = "(jsstring \<times> formValue) list"

text \<open>The conversion to a \<^verbatim>\<open>USVString\<close> that \<^verbatim>\<open>append\<close> and \<^verbatim>\<open>File\<close> apply to their strings.\<close>

definition usvString :: "jsstring \<Rightarrow> jsstring" where
  "usvString s = concat (map unitsOf (toCodePoints s))"

text \<open>
  The type of a \<^verbatim>\<open>Blob\<close> or \<^verbatim>\<open>File\<close>: empty when the given type has a character outside
  U+0020 to U+007E, and in ASCII lower case otherwise.
\<close>

definition blobType :: "jsstring \<Rightarrow> jsstring" where
  "blobType t = (if list_all (\<lambda>c. 0x20 \<le> c \<and> c \<le> 0x7E) t then map asciiLower t else [])"

definition octetStream :: jsstring where
  "octetStream = js ''application/octet-stream''"

text \<open>\<^verbatim>\<open>part.contentType || 'application/octet-stream'\<close>.\<close>

definition typeOrDefault :: "jsstring option \<Rightarrow> jsstring" where
  "typeOrDefault ct = (case orNull ct of None \<Rightarrow> octetStream | Some t \<Rightarrow> t)"

text \<open>The body of the loop over the parts; \<^verbatim>\<open>if (part.filename)\<close> is false for an empty name too.\<close>

definition appendPart :: "formData \<Rightarrow> part \<Rightarrow> formData" where
  "appendPart formData p =
     (case orNull (filename p) of
        Some fname \<Rightarrow>
          formData @ [(usvString (name p),
                       FileValue (usvString fname) (blobType (typeOrDefault (contentType p))) (data p))]
      | None \<Rightarrow>
          formData @ [(usvString (name p), StringValue (usvString (textDecode (data p))))])"

datatype error = Error jsstring

definition wrongContentType :: jsstring where
  "wrongContentType = js ''Content-Type must be multipart/form-data''"

definition noBoundary :: jsstring where
  "noBoundary = js ''No boundary found in Content-Type''"

text \<open>
  The request as the function reads it: the value of \<^verbatim>\<open>request.headers.get('Content-Type')\<close>
  (\<open>None\<close> is \<^verbatim>\<open>null\<close>) and the bytes of \<^verbatim>\<open>request.arrayBuffer()\<close>.
\<close>

record request =
  contentTypeHeader :: "jsstring option"
  body :: "byte list"

text \<open>
  \<^verbatim>\<open>throw new Error(...)\<close> is \<open>Inl\<close>; the local \<^verbatim>\<open>contentType\<close> is \<open>ctype\<close> here. The
  unused \<^verbatim>\<open>bodyText\<close> is left out: its decoder is not fatal and has no effect.
\<close>

definition parseMultipartFormData ::
  "(jsstring \<Rightarrow> jsstring) \<Rightarrow> request \<Rightarrow> error + formData" where
  "parseMultipartFormData L req =
     (case orNull (contentTypeHeader req) of
        None \<Rightarrow> Inl (Error wrongContentType)
      | Some ctype \<Rightarrow>
          if strIncludes ctype (js ''multipart/form-data'') then
            (case boundaryMatch ctype of
               None \<Rightarrow> Inl (Error noBoundary)
             | Some group1 \<Rightarrow>
                 Inr (foldl appendPart []
                        (parseMultipartParts L (body req) (stripQuotes (trim group1)))))
          else Inl (Error wrongContentType))"

section \<open>Definitions for the statements\<close>

text \<open>
  The body that consists of the given raw part blocks: every block is introduced by the
  boundary pattern and a CRLF, and the terminal pattern (the boundary pattern and two dashes)
  closes the body. A block is what lies between that CRLF and the next boundary pattern.
\<close>

definition blocksBody :: "byte list \<Rightarrow> byte list list \<Rightarrow> byte list" where
  "blocksBody bb blocks = concat (map (\<lambda>blk. bb @ CRLF @ blk) blocks) @ bb @ [45, 45]"

text \<open>Strings of ASCII code units.\<close>

definition isAscii :: "jsstring \<Rightarrow> bool" where
  "isAscii s = list_all (\<lambda>c. c < 0x80) s"

text \<open>What \<^verbatim>\<open>([^"]+)"\<close> matches at the start of a string: a non-empty run of code units other
  than the quote that a quote follows.\<close>

definition quotedRun :: "jsstring \<Rightarrow> jsstring option" where
  "quotedRun s =
     (let run = takeWhile (\<lambda>x. x \<noteq> quote) s
      in if run \<noteq> [] \<and> length run < length s then Some run else None)"

text \<open>
  The second half of \<^verbatim>\<open>parsePart\<close>, from the parsed headers and the content to the part, and
  the removal of one final CRLF, named for the statements below.
\<close>

definition stripFinalCRLF :: "byte list \<Rightarrow> byte list" where
  "stripFinalCRLF c = (if suffix CRLF c then take (length c - 2) c else c)"

definition partOfHeaders :: "headers \<Rightarrow> byte list \<Rightarrow> part option" where
  "partOfHeaders hdrs content =
     (case orNull (hdrs (js ''content-disposition'')) of
        None \<Rightarrow> None
      | Some contentDisposition \<Rightarrow>
          Some \<lparr> name = (case matchQuoted nameKey contentDisposition of
                           Some n \<Rightarrow> n | None \<Rightarrow> []),
                 filename = matchQuoted filenameKey contentDisposition,
                 contentType = orNull (hdrs (js ''content-type'')),
                 data = content \<rparr>)"

text \<open>
  The encoding of a part that the round trip is about: a Content-Disposition line with the
  name and, when present, the file name in double quotes, a Content-Type line when the part
  has a content type, the separator, the payload and a CRLF. The header text is written in
  UTF-8.
\<close>

definition dispositionText :: "part \<Rightarrow> jsstring" where
  "dispositionText t =
     js ''form-data; name='' @ quote # name t @ quote #
       (case filename t of None \<Rightarrow> [] | Some f \<Rightarrow> js ''; filename='' @ quote # f @ [quote])"

definition headerTextOf :: "part \<Rightarrow> jsstring" where
  "headerTextOf t =
     js ''Content-Disposition: '' @ dispositionText t @
       (case contentType t of None \<Rightarrow> [] | Some c \<Rightarrow> 0x0D # 0x0A # js ''Content-Type: '' @ c)"

definition encodePart :: "part \<Rightarrow> byte list" where
  "encodePart t = textEncode (headerTextOf t) @ CRLFCRLF @ data t @ CRLF"

definition encodeBody :: "jsstring \<Rightarrow> part list \<Rightarrow> byte list" where
  "encodeBody boundary ts = blocksBody (boundaryBytesOf boundary) (map encodePart ts)"

text \<open>
  The strings for which the round trip is proved: ASCII text without carriage return, line
  feed and (in a name or file name) double quote.
\<close>

definition plainText :: "jsstring \<Rightarrow> bool" where
  "plainText s = list_all (\<lambda>c. c < 0x80 \<and> c \<noteq> 0x0D \<and> c \<noteq> 0x0A \<and> c \<noteq> quote) s"

definition lineText :: "jsstring \<Rightarrow> bool" where
  "lineText s = list_all (\<lambda>c. c < 0x80 \<and> c \<noteq> 0x0D \<and> c \<noteq> 0x0A) s"

definition headerSafe :: "part \<Rightarrow> bool" where
  "headerSafe t =
     (plainText (name t) \<and> name t \<noteq> [] \<and> \<not> suffix (js ''filename='') (name t)
      \<and> (case filename t of None \<Rightarrow> True | Some f \<Rightarrow> plainText f)
      \<and> (case contentType t of None \<Rightarrow> True | Some c \<Rightarrow> lineText c \<and> c \<noteq> [] \<and> trim c = c))"

definition encodable :: "part \<Rightarrow> bool" where
  "encodable t = (headerSafe t \<and> filename t \<noteq> Some [])"

text \<open>
  The loop with a bound on the number of iterations: the same body, and \<open>None\<close> when the
  bound is used up before the loop has ended.
\<close>

fun parseLoopFuel ::
  "nat \<Rightarrow> (jsstring \<Rightarrow> jsstring) \<Rightarrow> byte list \<Rightarrow> jsstring \<Rightarrow> nat \<Rightarrow> part list \<Rightarrow> part list option" where
  "parseLoopFuel 0 L uint8Array boundary position parts = None"
| "parseLoopFuel (Suc n) L uint8Array boundary position parts =
     (if position < length uint8Array then
        (case findBoundary uint8Array (boundaryBytesOf boundary) (skipCRLF uint8Array position) of
           None \<Rightarrow> Some parts
         | Some nextBoundaryPos \<Rightarrow>
             if isTerminal uint8Array (nextBoundaryPos + length (boundaryBytesOf boundary))
             then Some (pushPart parts
                    (parsePart L (slice uint8Array (skipCRLF uint8Array position) nextBoundaryPos)))
             else parseLoopFuel n L uint8Array boundary
                    (nextBoundaryPos + length (boundaryBytesOf boundary))
                    (pushPart parts
                       (parsePart L (slice uint8Array (skipCRLF uint8Array position) nextBoundaryPos))))
      else Some parts)"

definition parseMultipartPartsFuel ::
  "nat \<Rightarrow> (jsstring \<Rightarrow> jsstring) \<Rightarrow> byte list \<Rightarrow> jsstring \<Rightarrow> part list option" where
  "parseMultipartPartsFuel n L uint8Array boundary =
     (case findBoundary uint8Array (boundaryBytesOf boundary) 0 of
        None \<Rightarrow> Some []
      | Some position \<Rightarrow>
          parseLoopFuel n L uint8Array boundary (position + length (boundaryBytesOf boundary)) [])"

text \<open>
  The header table in the words of the specification: a line with a colon behind its first
  character gives an entry, whose key is the text before the first colon, trimmed and in
  lower case, and whose value is the trimmed text behind that colon; the entries are listed
  in the order of the lines.
\<close>

definition lineEntry :: "(jsstring \<Rightarrow> jsstring) \<Rightarrow> jsstring \<Rightarrow> (jsstring \<times> jsstring) option" where
  "lineEntry L line =
     (case indexOf line 0x3A of
        None \<Rightarrow> None
      | Some p \<Rightarrow>
          if 0 < p then Some (toLowerCase L (trim (take p line)), trim (drop (p + 1) line))
          else None)"

definition headerEntries :: "(jsstring \<Rightarrow> jsstring) \<Rightarrow> jsstring \<Rightarrow> (jsstring \<times> jsstring) list" where
  "headerEntries L headerText = List.map_filter (lineEntry L) (splitLines [] headerText)"

section \<open>Lemmas: the search\<close>

lemma byteAt_drop: "byteAt (drop i xs) k = byteAt xs (i + k)"
  by (auto simp: byteAt_def)

lemma seqMatches_iff:
  "seqMatches bytes sequence i j \<longleftrightarrow>
     (\<forall>k. j \<le> k \<and> k < length sequence \<longrightarrow> byteAt bytes (i + k) = byteAt sequence k)"
proof (induction bytes sequence i j rule: seqMatches.induct)
  case (1 bytes sequence i j)
  show ?case
  proof (cases "j < length sequence")
    case False
    then show ?thesis
      by (auto simp: seqMatches.simps [of bytes sequence i j])
  next
    case True
    show ?thesis
    proof (cases "byteAt bytes (i + j) = byteAt sequence j")
      case False
      with True show ?thesis
        by (auto simp: seqMatches.simps [of bytes sequence i j])
    next
      case eq: True
      have "seqMatches bytes sequence i j = seqMatches bytes sequence i (j + 1)"
        using True eq by (simp add: seqMatches.simps [of bytes sequence i j])
      also have "\<dots> \<longleftrightarrow> (\<forall>k. j + 1 \<le> k \<and> k < length sequence \<longrightarrow>
          byteAt bytes (i + k) = byteAt sequence k)"
        using "1.IH" True eq by simp
      also have "\<dots> \<longleftrightarrow> (\<forall>k. j \<le> k \<and> k < length sequence \<longrightarrow>
          byteAt bytes (i + k) = byteAt sequence k)"
      proof (intro iffI allI impI)
        fix k
        assume h: "\<forall>k. j + 1 \<le> k \<and> k < length sequence \<longrightarrow>
            byteAt bytes (i + k) = byteAt sequence k"
          and k: "j \<le> k \<and> k < length sequence"
        show "byteAt bytes (i + k) = byteAt sequence k"
        proof (cases "k = j")
          case True
          with eq show ?thesis by simp
        next
          case False
          with k have "j + 1 \<le> k \<and> k < length sequence" by simp
          with h show ?thesis by blast
        qed
      next
        fix k
        assume h: "\<forall>k. j \<le> k \<and> k < length sequence \<longrightarrow>
            byteAt bytes (i + k) = byteAt sequence k"
          and k: "j + 1 \<le> k \<and> k < length sequence"
        then show "byteAt bytes (i + k) = byteAt sequence k" by simp
      qed
      finally show ?thesis .
    qed
  qed
qed

lemma seqMatches_prefix:
  assumes "i + length sequence \<le> length bytes"
  shows "seqMatches bytes sequence i 0 \<longleftrightarrow> prefix sequence (drop i bytes)"
proof -
  have "prefix sequence (drop i bytes) \<longleftrightarrow> take (length sequence) (drop i bytes) = sequence"
    by (metis append_eq_conv_conj prefix_def take_is_prefix)
  also have "\<dots> \<longleftrightarrow> (\<forall>k < length sequence. drop i bytes ! k = sequence ! k)"
    using assms by (auto simp: list_eq_iff_nth_eq)
  also have "\<dots> \<longleftrightarrow> (\<forall>k. 0 \<le> k \<and> k < length sequence \<longrightarrow>
      byteAt bytes (i + k) = byteAt sequence k)"
    using assms by (auto simp: byteAt_def)
  finally show ?thesis
    by (simp add: seqMatches_iff)
qed

lemma firstOccurrence_short:
  "length xs < length sequence \<Longrightarrow> firstOccurrence sequence xs = None"
proof (induction xs)
  case Nil
  then show ?case by auto
next
  case (Cons x xs)
  then have "\<not> prefix sequence (x # xs)"
    by (metis not_less prefix_length_le)
  with Cons show ?case by simp
qed

lemma findLoop_firstOccurrence:
  "i \<le> length bytes \<Longrightarrow>
   findLoop bytes sequence i = map_option (\<lambda>r. i + r) (firstOccurrence sequence (drop i bytes))"
proof (induction bytes sequence i rule: findLoop.induct)
  case (1 bytes sequence i)
  show ?case
  proof (cases "i + length sequence \<le> length bytes")
    case False
    then have "findLoop bytes sequence i = None"
      by (simp add: findLoop.simps [of bytes sequence i])
    moreover have "firstOccurrence sequence (drop i bytes) = None"
      by (rule firstOccurrence_short) (use False "1.prems" in simp)
    ultimately show ?thesis by simp
  next
    case True
    then have c: "int i \<le> int (length bytes) - int (length sequence)" by simp
    show ?thesis
    proof (cases "seqMatches bytes sequence i 0")
      case m: True
      then have p: "prefix sequence (drop i bytes)"
        using seqMatches_prefix [OF True] by simp
      have "firstOccurrence sequence (drop i bytes) = Some 0"
      proof (cases "drop i bytes")
        case Nil
        with p show ?thesis by simp
      next
        case (Cons x xs)
        with p show ?thesis by simp
      qed
      with m c show ?thesis
        by (simp add: findLoop.simps [of bytes sequence i])
    next
      case m: False
      then have np: "\<not> prefix sequence (drop i bytes)"
        using seqMatches_prefix [OF True] by simp
      then have "sequence \<noteq> []" by auto
      with True have lt: "i < length bytes" by (cases sequence) auto
      then have d: "drop i bytes = bytes ! i # drop (Suc i) bytes"
        by (simp add: Cons_nth_drop_Suc)
      have "findLoop bytes sequence i = findLoop bytes sequence (i + 1)"
        using m c by (simp add: findLoop.simps [of bytes sequence i])
      also have "\<dots> = map_option (\<lambda>r. i + 1 + r)
          (firstOccurrence sequence (drop (i + 1) bytes))"
        using "1.IH" [OF c m] lt by simp
      also have "\<dots> = map_option (\<lambda>r. i + r) (firstOccurrence sequence (drop i bytes))"
        using np d by (simp add: option.map_comp comp_def)
      finally show ?thesis .
    qed
  qed
qed

lemma findSequence_firstOccurrence:
  "startPos \<le> length bytes \<Longrightarrow>
   findSequence bytes sequence startPos =
     map_option (\<lambda>r. startPos + r) (firstOccurrence sequence (drop startPos bytes))"
  by (simp add: findSequence_def findLoop_firstOccurrence)

lemma firstOccurrence_None_iff:
  "firstOccurrence sequence xs = None \<longleftrightarrow> \<not> sublist sequence xs"
  by (induction xs) (auto simp: sublist_Cons_right)

lemma firstOccurrence_Some_prefix:
  "firstOccurrence sequence xs = Some r \<Longrightarrow> prefix sequence (drop r xs)"
proof (induction xs arbitrary: r)
  case Nil
  then show ?case by (simp split: if_splits)
next
  case (Cons x xs)
  then show ?case by (auto split: if_splits)
qed

lemma firstOccurrence_Some_le:
  "firstOccurrence sequence xs = Some r \<Longrightarrow> r + length sequence \<le> length xs"
proof (induction xs arbitrary: r)
  case Nil
  then show ?case by (simp split: if_splits)
next
  case (Cons x xs)
  then show ?case by (auto split: if_splits dest: prefix_length_le)
qed

lemma firstOccurrence_Some_first:
  "firstOccurrence sequence xs = Some r \<Longrightarrow> k < r \<Longrightarrow> \<not> prefix sequence (drop k xs)"
proof (induction xs arbitrary: r k)
  case Nil
  then show ?case by (simp split: if_splits)
next
  case (Cons x xs)
  then show ?case by (cases k) (auto split: if_splits)
qed

lemma firstOccurrence_Some_decomp:
  assumes "firstOccurrence sequence xs = Some r" and ne: "sequence \<noteq> []"
  shows "xs = take r xs @ sequence @ drop (r + length sequence) xs
         \<and> \<not> sublist sequence (take r xs @ butlast sequence)"
proof
  from firstOccurrence_Some_prefix [OF assms(1)] obtain zs where zs: "drop r xs = sequence @ zs"
    by (auto elim: prefixE)
  then have "zs = drop (length sequence) (drop r xs)" by simp
  then have "zs = drop (r + length sequence) xs" by (simp add: add.commute)
  with zs have d: "drop r xs = sequence @ drop (r + length sequence) xs" by simp
  have "xs = take r xs @ drop r xs" by simp
  with d show e: "xs = take r xs @ sequence @ drop (r + length sequence) xs" by simp
  show "\<not> sublist sequence (take r xs @ butlast sequence)"
  proof
    assume "sublist sequence (take r xs @ butlast sequence)"
    then obtain ps ss where eq: "take r xs @ butlast sequence = ps @ sequence @ ss"
      by (auto simp: sublist_def)
    have rl: "r \<le> length xs" using firstOccurrence_Some_le [OF assms(1)] by simp
    have "length (take r xs @ butlast sequence) = length (ps @ sequence @ ss)"
      using eq by simp
    then have "r + (length sequence - 1) = length ps + length sequence + length ss"
      using rl by simp
    moreover have "0 < length sequence" using ne by simp
    ultimately have lt: "length ps < r" by arith
    have s: "sequence = butlast sequence @ [last sequence]" using ne by simp
    have "xs = (take r xs @ butlast sequence) @ (last sequence # drop (r + length sequence) xs)"
      using e s by (metis append.assoc append_Cons append_Nil)
    then have "xs = ps @ sequence @ (ss @ last sequence # drop (r + length sequence) xs)"
      using eq by simp
    then have "drop (length ps) xs = sequence @ (ss @ last sequence # drop (r + length sequence) xs)"
      by (metis append_eq_conv_conj)
    then have "prefix sequence (drop (length ps) xs)" by simp
    with firstOccurrence_Some_first [OF assms(1) lt] show False by simp
  qed
qed

lemma firstOccurrence_append:
  assumes "\<not> sublist sequence (u @ butlast sequence)"
  shows "firstOccurrence sequence (u @ sequence @ r) = Some (length u)"
  using assms
proof (induction u)
  case Nil
  have p: "prefix sequence (sequence @ r)" by simp
  show ?case
  proof (cases "sequence @ r")
    case Nil
    then show ?thesis by simp
  next
    case (Cons a list)
    with p show ?thesis by simp
  qed
next
  case (Cons x u)
  have np: "\<not> prefix sequence (x # u @ sequence @ r)"
  proof
    assume p: "prefix sequence (x # u @ sequence @ r)"
    have "sequence \<noteq> []" using Cons.prems by auto
    then have "sequence = butlast sequence @ [last sequence]" by simp
    then have "x # u @ sequence @ r = ((x # u) @ butlast sequence) @ (last sequence # r)"
      by (metis append.assoc append_Cons append_Nil)
    with p have "prefix sequence (((x # u) @ butlast sequence) @ (last sequence # r))" by simp
    moreover have "length sequence \<le> length ((x # u) @ butlast sequence)" by simp
    ultimately have "prefix sequence ((x # u) @ butlast sequence)"
      by (metis prefix_length_prefix prefixI)
    with Cons.prems show False by auto
  qed
  from Cons.prems have "\<not> sublist sequence (u @ butlast sequence)"
    by (simp add: sublist_Cons_right)
  with Cons.IH np show ?case by simp
qed

section \<open>Lemmas: the loop over the blocks\<close>

lemma byteAt_append_length [simp]: "byteAt (pre @ x # xs) (length pre) = Some x"
  by (simp add: byteAt_def)

lemma byteAt_append_Suc_length [simp]: "byteAt (pre @ x # y # xs) (Suc (length pre)) = Some y"
  by (simp add: byteAt_def nth_append)

lemma byteAt_length [simp]: "byteAt xs (length xs) = None"
  by (simp add: byteAt_def)

lemma isTerminal_at_length: "isTerminal (xs @ a # b # ys) (length xs) \<longleftrightarrow> a = 45 \<and> b = 45"
  by (simp add: isTerminal_def)

lemma slice_append: "slice (pre @ blk @ post) (length pre) (length pre + length blk) = blk"
  by (simp add: slice_def)

lemma findBoundary_append:
  assumes "\<not> sublist bb (blk @ butlast bb)"
  shows "findBoundary (pre @ blk @ bb @ post) bb (length pre) = Some (length pre + length blk)"
  using firstOccurrence_append [OF assms, of post]
  by (simp add: findBoundary_def findSequence_firstOccurrence)

lemma parsePart_Nil: "parsePart L [] = None"
  by (simp add: parsePart_def findSequence_def findLoop.simps [of "[]"])

lemma blocksBody_rotate:
  "concat (map (\<lambda>blk. bb @ CRLF @ blk) blocks) @ bb =
   bb @ concat (map (\<lambda>blk. CRLF @ blk @ bb) blocks)"
  by (induction blocks) simp_all

lemma parseLoop_step_terminal:
  assumes "position < length uint8Array"
    and "findBoundary uint8Array (boundaryBytesOf boundary) (skipCRLF uint8Array position) = Some nb"
    and "isTerminal uint8Array (nb + length (boundaryBytesOf boundary))"
  shows "parseLoop L uint8Array boundary position parts =
     pushPart parts (parsePart L (slice uint8Array (skipCRLF uint8Array position) nb))"
  using assms by (simp add: parseLoop.simps [of L uint8Array boundary position parts])

lemma parseLoop_step_continue:
  assumes "position < length uint8Array"
    and "findBoundary uint8Array (boundaryBytesOf boundary) (skipCRLF uint8Array position) = Some nb"
    and "\<not> isTerminal uint8Array (nb + length (boundaryBytesOf boundary))"
  shows "parseLoop L uint8Array boundary position parts =
     parseLoop L uint8Array boundary (nb + length (boundaryBytesOf boundary))
       (pushPart parts (parsePart L (slice uint8Array (skipCRLF uint8Array position) nb)))"
  using assms by (simp add: parseLoop.simps [of L uint8Array boundary position parts])

lemma pushPart_map_filter:
  "pushPart acc (parsePart L blk) @ List.map_filter (parsePart L) blocks =
   acc @ List.map_filter (parsePart L) (blk # blocks)"
  by (simp add: pushPart_def split: option.splits)

lemma parseLoop_blocks:
  assumes "\<And>blk. blk \<in> set blocks \<Longrightarrow> \<not> sublist (boundaryBytesOf boundary) (blk @ butlast (boundaryBytesOf boundary))"
    and "blocks \<noteq> []"
  shows "parseLoop L
           (pre @ concat (map (\<lambda>blk. CRLF @ blk @ boundaryBytesOf boundary) blocks) @ [45, 45] @ epi)
           boundary (length pre) acc =
         acc @ List.map_filter (parsePart L) blocks"
  using assms
proof (induction blocks arbitrary: pre acc)
  case Nil
  then show ?case by simp
next
  case (Cons blk blocks)
  define bb where "bb = boundaryBytesOf boundary"
  define rest where "rest = concat (map (\<lambda>blk. CRLF @ blk @ bb) blocks) @ [45, 45] @ epi"
  define body where "body = pre @ concat (map (\<lambda>blk. CRLF @ blk @ bb) (blk # blocks)) @ [45, 45] @ epi"
  have body: "body = pre @ 13 # 10 # blk @ bb @ rest"
    by (simp add: body_def rest_def CRLF_def)
  have body2: "body = (pre @ [13, 10]) @ blk @ bb @ rest"
    by (simp add: body)
  have body3: "body = (pre @ [13, 10] @ blk @ bb) @ rest"
    by (simp add: body)
  have free: "\<not> sublist bb (blk @ butlast bb)"
    using Cons.prems(1) [of blk] by (simp add: bb_def)
  have lt: "length pre < length body"
    by (simp add: body)
  have skip: "skipCRLF body (length pre) = length pre + 2"
    by (simp add: skipCRLF_def body)
  have fb: "findBoundary body bb (skipCRLF body (length pre)) = Some (length pre + 2 + length blk)"
    unfolding skip using findBoundary_append [OF free, of "pre @ [13, 10]" rest]
    by (simp add: body2)
  have sl: "slice body (skipCRLF body (length pre)) (length pre + 2 + length blk) = blk"
    unfolding skip using slice_append [of "pre @ [13, 10]" blk "bb @ rest"]
    by (simp add: body2)
  have pos2: "length pre + 2 + length blk + length bb = length (pre @ [13, 10] @ blk @ bb)"
    by simp
  show ?case
  proof (cases "blocks = []")
    case True
    then have r: "rest = 45 # 45 # epi" by (simp add: rest_def)
    have "isTerminal body (length (pre @ [13, 10] @ blk @ bb))"
      unfolding body3 r by (subst isTerminal_at_length) simp
    then have "isTerminal body (length pre + 2 + length blk + length bb)"
      unfolding pos2 .
    from parseLoop_step_terminal [OF lt fb [unfolded bb_def] this [unfolded bb_def], of L acc, unfolded sl]
    show ?thesis
      using True by (simp add: body_def bb_def pushPart_def split: option.splits)
  next
    case False
    then obtain b2 bs where bs: "blocks = b2 # bs" by (cases blocks) auto
    have r: "rest = 13 # (10 # b2 @ bb @ concat (map (\<lambda>blk. CRLF @ blk @ bb) bs) @ [45, 45] @ epi)"
      by (simp add: rest_def bs CRLF_def)
    have "\<not> isTerminal body (length (pre @ [13, 10] @ blk @ bb))"
      unfolding body3 r by (subst isTerminal_at_length) simp
    then have nt: "\<not> isTerminal body (length pre + 2 + length blk + length bb)"
      unfolding pos2 .
    have IH: "parseLoop L ((pre @ [13, 10] @ blk @ bb) @ rest) boundary
        (length (pre @ [13, 10] @ blk @ bb)) (pushPart acc (parsePart L blk)) =
        pushPart acc (parsePart L blk) @ List.map_filter (parsePart L) blocks"
      unfolding rest_def bb_def
      by (rule Cons.IH) (use Cons.prems False in auto)
    from parseLoop_step_continue [OF lt fb [unfolded bb_def] nt [unfolded bb_def], of L acc, unfolded sl]
    have "parseLoop L body boundary (length pre) acc =
        parseLoop L body boundary (length pre + 2 + length blk + length bb)
          (pushPart acc (parsePart L blk))"
      by (simp add: bb_def)
    also have "\<dots> = pushPart acc (parsePart L blk) @ List.map_filter (parsePart L) blocks"
      using IH by (simp only: pos2 body3)
    finally show ?thesis
      by (simp add: body_def bb_def pushPart_map_filter)
  qed
qed

lemma parseMultipartParts_blocks:
  assumes "\<And>blk. blk \<in> set blocks \<Longrightarrow> \<not> sublist (boundaryBytesOf boundary) (blk @ butlast (boundaryBytesOf boundary))"
    and "blocks \<noteq> []"
  shows "parseMultipartParts L (blocksBody (boundaryBytesOf boundary) blocks @ epi) boundary =
         List.map_filter (parsePart L) blocks"
proof -
  define bb where "bb = boundaryBytesOf boundary"
  define rest where "rest = concat (map (\<lambda>blk. CRLF @ blk @ bb) blocks) @ [45, 45] @ epi"
  have body: "blocksBody bb blocks @ epi = bb @ rest"
    using blocksBody_rotate [of bb blocks] by (simp add: blocksBody_def rest_def)
  have "firstOccurrence bb (bb @ rest) = Some 0"
    using firstOccurrence_append [of bb "[]" rest] boundaryBytesOf_length [of boundary]
    by (cases bb) (auto simp: bb_def)
  then have fb: "findBoundary (bb @ rest) bb 0 = Some 0"
    by (simp add: findBoundary_def findSequence_firstOccurrence)
  have "parseLoop L (bb @ rest) boundary (length bb) [] = [] @ List.map_filter (parsePart L) blocks"
    unfolding rest_def bb_def by (rule parseLoop_blocks) (use assms in auto)
  with fb show ?thesis
    by (simp add: parseMultipartParts_def body [unfolded bb_def] bb_def)
qed

section \<open>Lemmas: ASCII text\<close>

lemma unat_ucast_8_16: "unat (ucast (b :: 8 word) :: 16 word) = unat b"
proof -
  have "unat b < 2 ^ 8" using unsigned_less [of b] by simp
  then have "unat b < 2 ^ 16" by simp
  then show ?thesis
    by (simp add: unsigned_ucast_eq take_bit_nat_eq_self)
qed

lemma unat_ucast_16_8: "c < 0x80 \<Longrightarrow> unat (ucast (c :: 16 word) :: 8 word) = unat c"
proof -
  assume "c < 0x80"
  then have "unat c < 0x80" by (simp add: word_less_nat_alt)
  then have "unat c < 2 ^ 8" by simp
  then show ?thesis
    by (simp add: unsigned_ucast_eq take_bit_nat_eq_self)
qed

lemma ucast8_16_8: "ucast (ucast (b :: 8 word) :: 16 word) = b"
  by (simp add: ucast_up_ucast_id is_up)

lemma ucast16_8_16: "c < 0x80 \<Longrightarrow> ucast (ucast (c :: 16 word) :: 8 word) = c"
  by (simp add: word_unat_eq_iff unat_ucast_8_16 unat_ucast_16_8)

lemma ascii_unit_props:
  assumes "(c :: 16 word) < 0x80"
  shows "\<not> isHighSurrogate c" "\<not> isLowSurrogate c" "scalarOf c = unat c" "unat c < 0x80"
  using assms by (auto simp: isHighSurrogate_def isLowSurrogate_def scalarOf_def word_less_nat_alt word_le_nat_alt)

lemma toCodePoints_ascii: "isAscii s \<Longrightarrow> toCodePoints s = map unat s"
proof (induction s rule: toCodePoints.induct)
  case 1
  then show ?case by simp
next
  case (2 c)
  then show ?case by (simp add: isAscii_def ascii_unit_props)
next
  case (3 c d s)
  then show ?case by (simp add: isAscii_def ascii_unit_props)
qed

lemma textEncode_ascii: "isAscii s \<Longrightarrow> textEncode s = map ucast s"
proof -
  assume a: "isAscii s"
  have "concat (map utf8Bytes (map unat s)) = map ucast s"
    using a
  proof (induction s)
    case Nil
    then show ?case by simp
  next
    case (Cons c s)
    then have "unat c < 0x80" by (simp add: isAscii_def ascii_unit_props)
    with Cons show ?case
      by (simp add: utf8Bytes_def isAscii_def of_nat_unat)
  qed
  with a show ?thesis
    by (simp add: textEncode_def toCodePoints_ascii)
qed

lemma utf8DecodeLoop_ascii:
  "list_all (\<lambda>b. b < 0x80) bs \<Longrightarrow> utf8DecodeLoop 0 0 0 0x80 0xBF bs = map unat bs"
proof (induction bs)
  case Nil
  then show ?case by (simp add: utf8DecodeLoop.simps)
next
  case (Cons b bs)
  then have "b \<le> 0x7F" by (simp add: word_less_nat_alt word_le_nat_alt)
  with Cons show ?case by (simp add: utf8DecodeLoop.simps)
qed

lemma textDecode_ascii:
  assumes "list_all (\<lambda>b. b < 0x80) bs"
  shows "textDecode bs = map ucast bs"
proof -
  have u: "concat (map unitsOf (map unat xs)) = map ucast xs" for xs :: "byte list"
  proof (induction xs)
    case Nil
    then show ?case by simp
  next
    case (Cons x xs)
    have "unat x < 2 ^ 8" using unsigned_less [of x] by simp
    then have "unat x < 0x10000" by simp
    with Cons show ?case by (simp add: unitsOf_def of_nat_unat)
  qed
  have d: "dropBOM (map unat bs) = map unat bs"
  proof (cases bs)
    case Nil
    then show ?thesis by (simp add: dropBOM_def)
  next
    case (Cons x xs)
    have "unat x < 2 ^ 8" using unsigned_less [of x] by simp
    then have "unat x \<noteq> 0xFEFF" by simp
    with Cons show ?thesis by (simp add: dropBOM_def)
  qed
  show ?thesis
    unfolding textDecode_def utf8DecodeLoop_ascii [OF assms] d by (rule u)
qed

lemma textEncode_ascii_bytes: "isAscii s \<Longrightarrow> list_all (\<lambda>b. b < 0x80) (textEncode s)"
proof -
  assume a: "isAscii s"
  have "list_all (\<lambda>b. b < 0x80) (map ucast s :: byte list)"
    using a
    by (induction s) (simp_all add: isAscii_def word_less_nat_alt unat_ucast_16_8)
  with a show ?thesis by (simp add: textEncode_ascii)
qed

lemma textDecode_textEncode_ascii: "isAscii s \<Longrightarrow> textDecode (textEncode s) = s"
proof -
  assume a: "isAscii s"
  have m: "map ucast (map ucast s :: byte list) = s"
    using a by (induction s) (simp_all add: isAscii_def ucast16_8_16)
  have "textDecode (textEncode s) = map ucast (textEncode s)"
    by (rule textDecode_ascii [OF textEncode_ascii_bytes [OF a]])
  also have "\<dots> = map ucast (map ucast s :: byte list)"
    by (simp only: textEncode_ascii [OF a])
  finally show ?thesis
    by (simp only: m)
qed

lemma textEncode_ascii_mem:
  assumes "isAscii s" and "(x :: byte) \<in> set (textEncode s)"
  shows "ucast x \<in> set s"
proof -
  from assms have "x \<in> ucast ` set s" by (simp add: textEncode_ascii)
  then obtain c where c: "c \<in> set s" and x: "x = ucast c" by auto
  from assms(1) c have "c < 0x80" by (simp add: isAscii_def list_all_iff)
  then have "ucast x = c" using x by (simp add: ucast16_8_16)
  with c show ?thesis by simp
qed

section \<open>Lemmas: lines, trimming and the quoted attributes\<close>

lemma splitLines_no_LF: "0x0A \<notin> set u \<Longrightarrow> splitLines cur u = [cur @ u]"
proof (induction cur u rule: splitLines.induct)
  case (1 cur)
  then show ?case by simp
next
  case (2 cur c)
  then show ?case by simp
next
  case (3 cur c d s)
  then show ?case by simp
qed

lemma splitLines_CRLF:
  "0x0A \<notin> set u \<Longrightarrow> splitLines cur (u @ 0x0D # 0x0A # v) = (cur @ u) # splitLines [] v"
proof (induction cur u rule: splitLines.induct)
  case (1 cur)
  then show ?case by simp
next
  case (2 cur c)
  then show ?case by simp
next
  case (3 cur c d s)
  then show ?case by simp
qed

lemma splitLines_LF_head: "splitLines cur (0x0A # v) = cur # splitLines [] v"
  by (cases v) simp_all

lemma splitLines_LF:
  "0x0A \<notin> set u \<Longrightarrow> u = [] \<or> last u \<noteq> 0x0D \<Longrightarrow>
   splitLines cur (u @ 0x0A # v) = (cur @ u) # splitLines [] v"
proof (induction cur u rule: splitLines.induct)
  case (1 cur)
  then show ?case by (simp add: splitLines_LF_head)
next
  case (2 cur c)
  then show ?case by (simp add: splitLines_LF_head)
next
  case (3 cur c d s)
  then show ?case by simp
qed

lemma indexOf_append: "c \<notin> set u \<Longrightarrow> indexOf (u @ c # v) c = Some (length u)"
  by (induction u) auto

lemma indexOf_None: "c \<notin> set u \<Longrightarrow> indexOf u c = None"
  by (induction u) auto

lemma trim_keep:
  assumes "s \<noteq> []" and "\<not> isWhiteSpace (hd s)" and "\<not> isWhiteSpace (last s)"
  shows "trim s = s"
proof -
  from assms have "dropWhile isWhiteSpace s = s"
    by (cases s) simp_all
  moreover have "dropWhile isWhiteSpace (rev s) = rev s"
  proof (cases "rev s")
    case Nil
    then show ?thesis by simp
  next
    case (Cons a list)
    then have "hd (rev s) = a" by simp
    then have "last s = a" by (simp add: hd_rev)
    with assms(3) Cons show ?thesis by simp
  qed
  ultimately show ?thesis by (simp add: trim_def)
qed

lemma trim_leading: "isWhiteSpace c \<Longrightarrow> trim (c # s) = trim s"
  by (simp add: trim_def)

lemma isWhiteSpace_space: "isWhiteSpace 0x20"
  by (simp add: isWhiteSpace_def)

lemma prefix_quote_align:
  assumes "prefix (k @ [quote]) (u @ quote # s)" and "quote \<notin> set k" and "quote \<notin> set u"
  shows "k = u"
proof -
  from assms(1) obtain zs where "u @ quote # s = k @ quote # zs"
    by (auto elim!: prefixE)
  then have "takeWhile (\<lambda>x. x \<noteq> quote) (u @ quote # s) = takeWhile (\<lambda>x. x \<noteq> quote) (k @ quote # zs)"
    by simp
  moreover have "takeWhile (\<lambda>x. x \<noteq> quote) (u @ quote # s) = u"
    using assms(3) by (auto simp: takeWhile_tail)
  moreover have "takeWhile (\<lambda>x. x \<noteq> quote) (k @ quote # zs) = k"
    using assms(2) by (auto simp: takeWhile_tail)
  ultimately show ?thesis by simp
qed

lemma matchQuoted_Cons:
  "matchQuoted key (c # s) =
     (if prefix key (c # s) then
        (case quotedRun (drop (length key) (c # s)) of
           Some run \<Rightarrow> Some run | None \<Rightarrow> matchQuoted key s)
      else matchQuoted key s)"
  by (simp add: quotedRun_def Let_def)

lemma matchQuoted_skip:
  assumes "quote \<notin> set u" and "quote \<notin> set k" and "k \<noteq> []"
  shows "matchQuoted (k @ [quote]) (u @ quote # s) =
     (if suffix k u then
        (case quotedRun s of Some run \<Rightarrow> Some run | None \<Rightarrow> matchQuoted (k @ [quote]) s)
      else matchQuoted (k @ [quote]) s)"
  using assms(1)
proof (induction u)
  case Nil
  from assms(2,3) have "\<not> prefix (k @ [quote]) (quote # s)"
    by (cases k) auto
  with assms(3) show ?case
    by (simp add: matchQuoted_Cons)
next
  case (Cons c u)
  then have q: "quote \<notin> set u" and q': "quote \<notin> set (c # u)" by simp_all
  note IH = Cons.IH [OF q]
  show ?case
  proof (cases "prefix (k @ [quote]) ((c # u) @ quote # s)")
    case True
    from prefix_quote_align [OF True assms(2) q'] have k: "k = c # u" .
    then have nsuf: "\<not> suffix k u"
      by (metis impossible_Cons suffix_length_le)
    have d: "drop (length (k @ [quote])) ((c # u) @ quote # s) = s"
      by (simp add: k)
    have "matchQuoted (k @ [quote]) ((c # u) @ quote # s) =
        (case quotedRun s of Some run \<Rightarrow> Some run
         | None \<Rightarrow> matchQuoted (k @ [quote]) (u @ quote # s))"
      using True d by (simp only: append_Cons matchQuoted_Cons if_True)
    also have "\<dots> = (case quotedRun s of Some run \<Rightarrow> Some run
         | None \<Rightarrow> matchQuoted (k @ [quote]) s)"
      using IH nsuf by (simp split: option.splits)
    finally show ?thesis
      using k by simp
  next
    case False
    then have "k \<noteq> c # u" by auto
    then have "suffix k (c # u) = suffix k u"
      by (simp add: suffix_Cons)
    moreover have "matchQuoted (k @ [quote]) ((c # u) @ quote # s) =
        matchQuoted (k @ [quote]) (u @ quote # s)"
      using False by (simp only: append_Cons matchQuoted_Cons if_False)
    ultimately show ?thesis
      using IH by simp
  qed
qed

lemma quotedRun_no_quote: "quote \<notin> set s \<Longrightarrow> quotedRun s = None"
proof -
  assume "quote \<notin> set s"
  then have "takeWhile (\<lambda>x. x \<noteq> quote) s = s" by auto
  then show ?thesis unfolding quotedRun_def Let_def by (simp only:) simp
qed

lemma matchQuoted_no_quote: "quote \<notin> set s \<Longrightarrow> matchQuoted key s = None"
proof (induction s)
  case Nil
  then show ?case by simp
next
  case (Cons c s)
  then have "quote \<notin> set (drop (length key) (c # s))"
    by (metis in_set_dropD)
  then have "quotedRun (drop (length key) (c # s)) = None"
    by (rule quotedRun_no_quote)
  with Cons show ?case
    by (simp only: matchQuoted_Cons) simp
qed

lemma quotedRun_plain:
  "quote \<notin> set v \<Longrightarrow> quotedRun (v @ quote # s) = (if v = [] then None else Some v)"
proof -
  assume "quote \<notin> set v"
  then have "takeWhile (\<lambda>x. x \<noteq> quote) (v @ quote # s) = v"
    by (auto simp: takeWhile_tail)
  then show ?thesis by (simp add: quotedRun_def Let_def)
qed

section \<open>Lemmas: parsePart\<close>

lemma suffix_CRLF_iff:
  "suffix CRLF c \<longleftrightarrow>
     length c \<ge> 2 \<and> byteAt c (length c - 2) = Some 13 \<and> byteAt c (length c - 1) = Some 10"
proof
  assume "suffix CRLF c"
  then obtain p where "c = p @ [13, 10]" by (auto simp: suffix_def CRLF_def)
  then show "length c \<ge> 2 \<and> byteAt c (length c - 2) = Some 13 \<and> byteAt c (length c - 1) = Some 10"
    by (simp add: byteAt_def nth_append)
next
  assume a: "length c \<ge> 2 \<and> byteAt c (length c - 2) = Some 13 \<and> byteAt c (length c - 1) = Some 10"
  then have l: "length c \<ge> 2" and x: "c ! (length c - 2) = 13" and y: "c ! (length c - 1) = 10"
    by (auto simp: byteAt_def split: if_splits)
  have "drop (length c - 2) c = [c ! (length c - 2), c ! (length c - 1)]"
  proof -
    have "drop (length c - 2) c = c ! (length c - 2) # drop (Suc (length c - 2)) c"
      using l by (intro Cons_nth_drop_Suc [symmetric]) simp
    also have "Suc (length c - 2) = length c - 1" using l by simp
    also have "drop (length c - 1) c = [c ! (length c - 1)]"
      using l by (metis Cons_nth_drop_Suc Suc_diff_1 diff_less drop_all le_refl length_greater_0_conv list.size(3) not_numeral_le_zero zero_less_one)
    finally show ?thesis .
  qed
  with x y have "drop (length c - 2) c = CRLF" by (simp add: CRLF_def)
  then show "suffix CRLF c" by (metis suffix_drop)
qed

lemma content_stripFinalCRLF:
  "slice c 0 (if length c \<ge> 2 \<and> byteAt c (length c - 2) = Some 13
                 \<and> byteAt c (length c - 1) = Some 10
              then length c - 2 else length c) = stripFinalCRLF c"
  by (simp add: stripFinalCRLF_def suffix_CRLF_iff slice_def)

lemma parsePart_eq:
  "parsePart L partData =
     (case firstOccurrence CRLFCRLF partData of
        None \<Rightarrow> None
      | Some e \<Rightarrow>
          partOfHeaders (parseHeaders L (textDecode (take e partData)))
            (stripFinalCRLF (drop (e + 4) partData)))"
proof -
  have f: "findSequence partData [13, 10, 13, 10] 0 = firstOccurrence CRLFCRLF partData"
    by (simp add: findSequence_firstOccurrence CRLFCRLF_def option.map_ident)
  show ?thesis
    unfolding parsePart_def f Let_def content_stripFinalCRLF partOfHeaders_def
    by (simp add: slice_def split: option.splits)
qed

lemma stripFinalCRLF_append [simp]: "stripFinalCRLF (payload @ CRLF) = payload"
  by (simp add: stripFinalCRLF_def CRLF_def suffix_def)

lemma stripFinalCRLF_Nil [simp]: "stripFinalCRLF [] = []"
  by (simp add: stripFinalCRLF_def)

lemma parsePart_first_separator:
  assumes "firstOccurrence CRLFCRLF (h @ CRLFCRLF @ c) = Some (length h)"
  shows "parsePart L (h @ CRLFCRLF @ c) =
     partOfHeaders (parseHeaders L (textDecode h)) (stripFinalCRLF c)"
  using assms by (simp add: parsePart_eq CRLFCRLF_def)

lemma firstOccurrence_skip:
  "x \<notin> set u \<Longrightarrow>
   firstOccurrence (x # s) (u @ v) = map_option (\<lambda>r. length u + r) (firstOccurrence (x # s) v)"
proof (induction u)
  case Nil
  then show ?case by (cases "firstOccurrence (x # s) v") simp_all
next
  case (Cons a u)
  then show ?case by (cases "firstOccurrence (x # s) v") simp_all
qed

lemma firstOccurrence_here: "prefix sequence (x # xs) \<Longrightarrow> firstOccurrence sequence (x # xs) = Some 0"
  by simp

section \<open>Lemmas: the encoded part\<close>

lemma headerLine_disposition:
  "headerLine L h (js ''Content-Disposition: '' @ v) = h(js ''content-disposition'' \<mapsto> trim v)"
proof -
  have i: "indexOf (js ''Content-Disposition: '' @ v) 0x3A = Some 19"
    by (simp add: js_def)
  have k: "toLowerCase L (trim (take 19 (js ''Content-Disposition: '' @ v))) = js ''content-disposition''"
    by (simp add: js_def trim_def isWhiteSpace_def toLowerCase_def asciiLower_def)
  have d: "trim (drop (19 + 1) (js ''Content-Disposition: '' @ v)) = trim v"
    by (simp add: js_def trim_leading isWhiteSpace_space)
  have p: "js ''content-disposition'' \<noteq> protoKey"
    by (simp add: js_def protoKey_def)
  show ?thesis
    unfolding headerLine_def i by (simp only: option.case k d) (simp add: setProperty_def p)
qed

lemma headerLine_type:
  "headerLine L h (js ''Content-Type: '' @ v) = h(js ''content-type'' \<mapsto> trim v)"
proof -
  have i: "indexOf (js ''Content-Type: '' @ v) 0x3A = Some 12"
    by (simp add: js_def)
  have k: "toLowerCase L (trim (take 12 (js ''Content-Type: '' @ v))) = js ''content-type''"
    by (simp add: js_def trim_def isWhiteSpace_def toLowerCase_def asciiLower_def)
  have d: "trim (drop (12 + 1) (js ''Content-Type: '' @ v)) = trim v"
    by (simp add: js_def trim_leading isWhiteSpace_space)
  have p: "js ''content-type'' \<noteq> protoKey"
    by (simp add: js_def protoKey_def)
  show ?thesis
    unfolding headerLine_def i by (simp only: option.case k d) (simp add: setProperty_def p)
qed

lemma plainText_props:
  assumes "plainText s"
  shows "isAscii s" and "0x0D \<notin> set s" and "0x0A \<notin> set s" and "quote \<notin> set s"
  using assms by (auto simp: plainText_def isAscii_def list_all_iff)

lemma lineText_props:
  assumes "lineText s"
  shows "isAscii s" and "0x0D \<notin> set s" and "0x0A \<notin> set s"
  using assms by (auto simp: lineText_def isAscii_def list_all_iff)

lemma plainText_lineText: "plainText s \<Longrightarrow> lineText s"
  by (auto simp: plainText_def lineText_def list_all_iff)

lemma lineText_append [simp]: "lineText (u @ v) \<longleftrightarrow> lineText u \<and> lineText v"
  by (simp add: lineText_def)

lemma lineText_Cons [simp]:
  "lineText (c # v) \<longleftrightarrow> c < 0x80 \<and> c \<noteq> 0x0D \<and> c \<noteq> 0x0A \<and> lineText v"
  by (simp add: lineText_def)

lemma lineText_Nil [simp]: "lineText []"
  by (simp add: lineText_def)

lemma lineText_disposition:
  assumes "headerSafe t"
  shows "lineText (dispositionText t)"
proof -
  have a: "lineText (js ''form-data; name='')" and b: "lineText (js ''; filename='')"
    by (simp_all add: js_def)
  from assms have n: "lineText (name t)"
    by (simp add: headerSafe_def plainText_lineText)
  have q: "quote < 0x80 \<and> quote \<noteq> 0x0D \<and> quote \<noteq> 0x0A"
    by (simp add: quote_def)
  show ?thesis
  proof (cases "filename t")
    case None
    with a n q show ?thesis by (simp add: dispositionText_def)
  next
    case (Some f)
    with assms have "lineText f" by (simp add: headerSafe_def plainText_lineText)
    with Some a b n q show ?thesis by (simp add: dispositionText_def)
  qed
qed

lemma trim_disposition: "trim (dispositionText t) = dispositionText t"
proof (rule trim_keep)
  show "dispositionText t \<noteq> []"
    by (simp add: dispositionText_def)
  show "\<not> isWhiteSpace (hd (dispositionText t))"
    by (simp add: dispositionText_def js_def isWhiteSpace_def)
  have "last (dispositionText t) = quote"
    by (cases "filename t") (simp_all add: dispositionText_def)
  then show "\<not> isWhiteSpace (last (dispositionText t))"
    by (simp add: quote_def isWhiteSpace_def)
qed

lemma lineText_dispositionLine:
  "headerSafe t \<Longrightarrow> lineText (js ''Content-Disposition: '' @ dispositionText t)"
  using lineText_disposition [of t] by (simp add: js_def)

lemma lineText_typeLine: "lineText c \<Longrightarrow> lineText (js ''Content-Type: '' @ c)"
  by (simp add: js_def)

lemma parseHeaders_headerTextOf:
  assumes "headerSafe t"
  shows "parseHeaders L (headerTextOf t) =
     (case contentType t of
        None \<Rightarrow> [js ''content-disposition'' \<mapsto> dispositionText t]
      | Some c \<Rightarrow> [js ''content-disposition'' \<mapsto> dispositionText t,
                   js ''content-type'' \<mapsto> c])"
proof (cases "contentType t")
  case None
  have "0x0A \<notin> set (js ''Content-Disposition: '' @ dispositionText t)"
    using lineText_props(3) [OF lineText_dispositionLine [OF assms]] .
  then have "splitLines [] (headerTextOf t) = [js ''Content-Disposition: '' @ dispositionText t]"
    using None by (simp add: headerTextOf_def splitLines_no_LF)
  with None show ?thesis
    by (simp add: parseHeaders_def headerLine_disposition trim_disposition)
next
  case (Some c)
  with assms have c: "lineText c" "trim c = c"
    by (simp_all add: headerSafe_def)
  have 1: "0x0A \<notin> set (js ''Content-Disposition: '' @ dispositionText t)"
    using lineText_props(3) [OF lineText_dispositionLine [OF assms]] .
  have 2: "0x0A \<notin> set (js ''Content-Type: '' @ c)"
    using lineText_props(3) [OF lineText_typeLine [OF c(1)]] .
  have "headerTextOf t =
      (js ''Content-Disposition: '' @ dispositionText t) @ 0x0D # 0x0A # (js ''Content-Type: '' @ c)"
    using Some by (simp add: headerTextOf_def)
  then have "splitLines [] (headerTextOf t) =
      [js ''Content-Disposition: '' @ dispositionText t, js ''Content-Type: '' @ c]"
    by (simp only: splitLines_CRLF [OF 1] splitLines_no_LF [OF 2] append_Nil)
  with Some c show ?thesis
    by (simp add: parseHeaders_def headerLine_disposition headerLine_type trim_disposition)
qed

lemma suffix_name_key: "suffix (js ''name='') (js ''form-data; name='')"
  by (simp add: js_def suffix_def)

lemma suffix_filename_key1: "\<not> suffix (js ''filename='') (js ''form-data; name='')"
  by (simp add: js_def suffix_to_prefix)

lemma suffix_filename_key2: "suffix (js ''filename='') (js ''; filename='')"
  by (simp add: js_def suffix_def)

lemma quote_notin_keys:
  "quote \<notin> set (js ''form-data; name='')" "quote \<notin> set (js ''; filename='')"
  "quote \<notin> set (js ''name='')" "quote \<notin> set (js ''filename='')"
  by (simp_all add: js_def quote_def)

lemma matchQuoted_name:
  assumes "quote \<notin> set n" and "n \<noteq> []"
  shows "matchQuoted nameKey (js ''form-data; name='' @ quote # n @ quote # rest) = Some n"
proof -
  have "matchQuoted (js ''name='' @ [quote]) (js ''form-data; name='' @ quote # (n @ quote # rest)) =
      (case quotedRun (n @ quote # rest) of Some run \<Rightarrow> Some run
       | None \<Rightarrow> matchQuoted (js ''name='' @ [quote]) (n @ quote # rest))"
    using matchQuoted_skip [OF quote_notin_keys(1) quote_notin_keys(3), of "n @ quote # rest"]
      suffix_name_key by (simp add: js_def)
  with assms show ?thesis
    by (simp add: nameKey_def quotedRun_plain)
qed

lemma matchQuoted_filename_tail:
  assumes "quote \<notin> set f"
  shows "matchQuoted filenameKey (js ''; filename='' @ quote # f @ [quote]) =
     (if f = [] then None else Some f)"
proof -
  have k: "js ''filename='' \<noteq> []" by (simp add: js_def)
  have e: "matchQuoted (js ''filename='' @ [quote]) (f @ [quote]) = None"
    using matchQuoted_skip [OF assms quote_notin_keys(4) k, of "[]"]
    by (simp add: quotedRun_def)
  have "matchQuoted (js ''filename='' @ [quote]) (js ''; filename='' @ quote # (f @ [quote])) =
      (case quotedRun (f @ [quote]) of Some run \<Rightarrow> Some run
       | None \<Rightarrow> matchQuoted (js ''filename='' @ [quote]) (f @ [quote]))"
    using matchQuoted_skip [OF quote_notin_keys(2) quote_notin_keys(4) k, of "f @ [quote]"]
      suffix_filename_key2 by simp
  with e show ?thesis
    using quotedRun_plain [OF assms, of "[]"] by (simp add: filenameKey_def)
qed

lemma matchQuoted_filename:
  assumes "headerSafe t"
  shows "matchQuoted filenameKey (dispositionText t) = orNull (filename t)"
proof -
  have k: "js ''filename='' \<noteq> []" by (simp add: js_def)
  from assms have n: "quote \<notin> set (name t)" and ns: "\<not> suffix (js ''filename='') (name t)"
    by (simp_all add: headerSafe_def plainText_props)
  define rest where
    "rest = (case filename t of None \<Rightarrow> [] | Some f \<Rightarrow> js ''; filename='' @ quote # f @ [quote])"
  have d: "dispositionText t = js ''form-data; name='' @ quote # (name t @ quote # rest)"
    by (simp add: dispositionText_def rest_def)
  have "matchQuoted (js ''filename='' @ [quote]) (dispositionText t) =
      matchQuoted (js ''filename='' @ [quote]) (name t @ quote # rest)"
    unfolding d
    using matchQuoted_skip [OF quote_notin_keys(1) quote_notin_keys(4) k, of "name t @ quote # rest"]
      suffix_filename_key1 by simp
  also have "\<dots> = matchQuoted (js ''filename='' @ [quote]) rest"
    using matchQuoted_skip [OF n quote_notin_keys(4) k, of rest] ns by simp
  finally have m: "matchQuoted filenameKey (dispositionText t) = matchQuoted filenameKey rest"
    by (simp add: filenameKey_def)
  show ?thesis
  proof (cases "filename t")
    case None
    with m show ?thesis by (simp add: rest_def orNull_def)
  next
    case (Some f)
    with assms have "quote \<notin> set f" by (simp add: headerSafe_def plainText_props)
    from matchQuoted_filename_tail [OF this] m Some show ?thesis
      by (simp add: rest_def orNull_def)
  qed
qed

lemma partOfHeaders_headerTextOf:
  assumes "headerSafe t"
  shows "partOfHeaders (parseHeaders L (headerTextOf t)) content =
     Some \<lparr> name = name t, filename = orNull (filename t), contentType = contentType t,
            data = content \<rparr>"
proof -
  have ne: "js ''content-disposition'' \<noteq> js ''content-type''"
    by (simp add: js_def)
  have d: "dispositionText t \<noteq> []"
    by (simp add: dispositionText_def)
  from assms have n: "quote \<notin> set (name t)" "name t \<noteq> []"
    by (simp_all add: headerSafe_def plainText_props)
  have nm: "matchQuoted nameKey (dispositionText t) = Some (name t)"
    unfolding dispositionText_def by (rule matchQuoted_name [OF n])
  have cd: "parseHeaders L (headerTextOf t) (js ''content-disposition'') = Some (dispositionText t)"
    using ne by (simp add: parseHeaders_headerTextOf [OF assms] split: option.splits)
  have ct: "orNull (parseHeaders L (headerTextOf t) (js ''content-type'')) = contentType t"
  proof (cases "contentType t")
    case None
    with ne show ?thesis
      by (simp add: parseHeaders_headerTextOf [OF assms] orNull_def)
  next
    case (Some c)
    with assms have "c \<noteq> []" by (simp add: headerSafe_def)
    with Some show ?thesis
      by (simp add: parseHeaders_headerTextOf [OF assms] orNull_def)
  qed
  have cd': "orNull (parseHeaders L (headerTextOf t) (js ''content-disposition'')) =
      Some (dispositionText t)"
    using d by (simp add: cd orNull_def)
  show ?thesis
    by (simp add: partOfHeaders_def cd' ct nm matchQuoted_filename [OF assms])
qed

lemma firstOccurrence_one_line:
  assumes "13 \<notin> set a"
  shows "firstOccurrence CRLFCRLF (a @ CRLFCRLF @ rest) = Some (length a)"
  using firstOccurrence_skip [OF assms, of "[10, 13, 10]" "CRLFCRLF @ rest"]
  by (simp add: CRLFCRLF_def)

lemma firstOccurrence_two_lines:
  assumes "13 \<notin> set a" and "13 \<notin> set b" and "b \<noteq> []"
  shows "firstOccurrence CRLFCRLF (a @ 13 # 10 # b @ CRLFCRLF @ rest) = Some (length a + 2 + length b)"
proof -
  from assms(2,3) obtain x b' where b: "b = x # b'" and x: "x \<noteq> 13"
    by (cases b) auto
  have 1: "firstOccurrence CRLFCRLF (b @ CRLFCRLF @ rest) = Some (length b)"
    by (rule firstOccurrence_one_line [OF assms(2)])
  have 2: "firstOccurrence CRLFCRLF (13 # 10 # b @ CRLFCRLF @ rest) = Some (2 + length b)"
    using 1 x by (simp add: b CRLFCRLF_def)
  show ?thesis
    using firstOccurrence_skip [OF assms(1), of "[10, 13, 10]" "13 # 10 # b @ CRLFCRLF @ rest"] 2
    by (simp add: CRLFCRLF_def)
qed

lemma lineText_bytes:
  assumes "lineText s"
  shows "13 \<notin> set (textEncode s)"
proof
  assume "13 \<in> set (textEncode s)"
  from textEncode_ascii_mem [OF lineText_props(1) [OF assms] this]
  have "(13 :: codeunit) \<in> set s" by simp
  with lineText_props(2) [OF assms] show False by simp
qed

lemma textEncode_append_ascii:
  "isAscii u \<Longrightarrow> isAscii v \<Longrightarrow> textEncode (u @ v) = textEncode u @ textEncode v"
  by (simp add: textEncode_ascii isAscii_def)

lemma isAscii_append [simp]: "isAscii (u @ v) \<longleftrightarrow> isAscii u \<and> isAscii v"
  by (simp add: isAscii_def)

lemma isAscii_headerTextOf:
  assumes "headerSafe t"
  shows "isAscii (headerTextOf t)"
proof -
  have a: "isAscii (js ''Content-Disposition: '' @ dispositionText t)"
    by (rule lineText_props(1) [OF lineText_dispositionLine [OF assms]])
  show ?thesis
  proof (cases "contentType t")
    case None
    with a show ?thesis by (simp add: headerTextOf_def)
  next
    case (Some c)
    with assms have "lineText c" by (simp add: headerSafe_def)
    then have "isAscii (js ''Content-Type: '' @ c)"
      by (rule lineText_props(1) [OF lineText_typeLine])
    moreover have "isAscii [0x0D, 0x0A]" by (simp add: isAscii_def)
    ultimately show ?thesis
      using a Some by (simp add: headerTextOf_def isAscii_def)
  qed
qed

lemma firstOccurrence_encodePart:
  assumes "headerSafe t"
  shows "firstOccurrence CRLFCRLF (textEncode (headerTextOf t) @ CRLFCRLF @ rest) =
     Some (length (textEncode (headerTextOf t)))"
proof -
  let ?A = "js ''Content-Disposition: '' @ dispositionText t"
  have lA: "lineText ?A" by (rule lineText_dispositionLine [OF assms])
  have A: "13 \<notin> set (textEncode ?A)" by (rule lineText_bytes [OF lA])
  show ?thesis
  proof (cases "contentType t")
    case None
    then have "headerTextOf t = ?A" by (simp add: headerTextOf_def)
    with firstOccurrence_one_line [OF A, of rest] show ?thesis by simp
  next
    case (Some c)
    let ?B = "js ''Content-Type: '' @ c"
    from Some assms have "lineText c" by (simp add: headerSafe_def)
    then have lB: "lineText ?B" by (rule lineText_typeLine)
    have B: "13 \<notin> set (textEncode ?B)" by (rule lineText_bytes [OF lB])
    have "textEncode ?B = map ucast ?B"
      by (rule textEncode_ascii [OF lineText_props(1) [OF lB]])
    then have ne: "textEncode ?B \<noteq> []"
      by (simp add: js_def)
    have "headerTextOf t = ?A @ [0x0D, 0x0A] @ ?B"
      using Some by (simp add: headerTextOf_def)
    then have "textEncode (headerTextOf t) = textEncode ?A @ textEncode [0x0D, 0x0A] @ textEncode ?B"
      using lineText_props(1) [OF lA] lineText_props(1) [OF lB]
      by (simp add: textEncode_ascii isAscii_def)
    moreover have "textEncode [0x0D, 0x0A] = [13, 10]"
      by (simp add: textEncode_ascii isAscii_def)
    ultimately have e: "textEncode (headerTextOf t) = textEncode ?A @ 13 # 10 # textEncode ?B"
      by simp
    from firstOccurrence_two_lines [OF A B ne, of rest] show ?thesis
      by (simp add: e)
  qed
qed

lemma part_eq_fields:
  "\<lparr> name = name t, filename = filename t, contentType = contentType t, data = data t \<rparr> = (t :: part)"
  by simp

lemma parsePart_encodePart_gen:
  assumes "headerSafe t"
  shows "parsePart L (encodePart t) = Some (t \<lparr> filename := orNull (filename t) \<rparr>)"
proof -
  have "parsePart L (textEncode (headerTextOf t) @ CRLFCRLF @ (data t @ CRLF)) =
      partOfHeaders (parseHeaders L (textDecode (textEncode (headerTextOf t))))
        (stripFinalCRLF (data t @ CRLF))"
    by (rule parsePart_first_separator [OF firstOccurrence_encodePart [OF assms]])
  then show ?thesis
    by (simp add: encodePart_def textDecode_textEncode_ascii [OF isAscii_headerTextOf [OF assms]]
        partOfHeaders_headerTextOf [OF assms])
qed

lemma parsePart_encodePart:
  assumes "encodable t"
  shows "parsePart L (encodePart t) = Some t"
proof -
  from assms have h: "headerSafe t" and f: "filename t \<noteq> Some []"
    by (simp_all add: encodable_def)
  from f have "orNull (filename t) = filename t"
    by (cases "filename t") (simp_all add: orNull_def)
  with parsePart_encodePart_gen [OF h, of L] show ?thesis by simp
qed

section \<open>Lemmas: the encoded body\<close>

lemma sublist_separated:
  assumes "sublist s (u @ x # v)" and "x \<notin> set s"
  shows "sublist s u \<or> sublist s v"
proof -
  from assms(1) consider "sublist s u" | "sublist s (x # v)"
    | xs1 xs2 where "s = xs1 @ xs2" "suffix xs1 u" "prefix xs2 (x # v)"
    by (auto simp: sublist_append)
  then show ?thesis
  proof cases
    case 1
    then show ?thesis by simp
  next
    case 2
    then have "prefix s (x # v) \<or> sublist s v" by (simp add: sublist_Cons_right)
    then show ?thesis
    proof
      assume "prefix s (x # v)"
      with assms(2) have "s = []" by (cases s) auto
      then show ?thesis by simp
    next
      assume "sublist s v"
      then show ?thesis by simp
    qed
  next
    case 3
    from 3(3) assms(2) 3(1) have "xs2 = []" by (cases xs2) auto
    with 3(1,2) have "suffix s u" by simp
    then have "sublist s u" by (rule suffix_imp_sublist)
    then show ?thesis by simp
  qed
qed

lemma boundary_free_block:
  assumes "\<not> sublist bb (blk @ [10])" and "10 \<notin> set bb" and "bb \<noteq> []"
  shows "\<not> sublist bb ((blk @ [10]) @ butlast bb)"
proof
  assume "sublist bb ((blk @ [10]) @ butlast bb)"
  then have "sublist bb (blk @ 10 # butlast bb)" by simp
  from sublist_separated [OF this assms(2)] show False
  proof
    assume "sublist bb blk"
    then have "sublist bb (blk @ [10])" by (simp add: sublist_append)
    with assms(1) show False by simp
  next
    assume "sublist bb (butlast bb)"
    then have "length bb \<le> length (butlast bb)" by (rule sublist_length_le)
    with assms(3) show False by (cases bb) (auto split: if_splits)
  qed
qed

lemma encodePart_ends: "encodePart t = (textEncode (headerTextOf t) @ CRLFCRLF @ data t @ [13]) @ [10]"
  by (simp add: encodePart_def CRLF_def)

lemma boundary_free_encodePart:
  assumes "\<not> sublist (boundaryBytesOf boundary) (encodePart t)"
    and "10 \<notin> set (boundaryBytesOf boundary)"
  shows "\<not> sublist (boundaryBytesOf boundary) (encodePart t @ butlast (boundaryBytesOf boundary))"
proof -
  have ne: "boundaryBytesOf boundary \<noteq> []"
    using boundaryBytesOf_length [of boundary] by auto
  have "\<not> sublist (boundaryBytesOf boundary)
      ((textEncode (headerTextOf t) @ CRLFCRLF @ data t @ [13]) @ [10])"
    using assms(1) unfolding encodePart_ends [symmetric] .
  from boundary_free_block [OF this assms(2) ne] show ?thesis
    unfolding encodePart_ends [symmetric] .
qed

lemma map_filter_map_Some:
  "(\<And>t. t \<in> set ts \<Longrightarrow> f (g t) = Some t) \<Longrightarrow> List.map_filter f (map g ts) = ts"
  by (induction ts) (simp_all add: List.map_filter_simps)

lemma parseLoop_step_none:
  assumes "position < length uint8Array"
    and "findBoundary uint8Array (boundaryBytesOf boundary) (skipCRLF uint8Array position) = None"
  shows "parseLoop L uint8Array boundary position parts = parts"
  using assms by (simp add: parseLoop.simps [of L uint8Array boundary position parts])

lemma parseLoop_end: "parseLoop L uint8Array boundary (length uint8Array) parts = parts"
  by (simp add: parseLoop.simps [of L uint8Array boundary "length uint8Array" parts])

lemma parseMultipartParts_terminal_only:
  "parseMultipartParts L (boundaryBytesOf boundary @ [45, 45]) boundary = []"
proof -
  define bb where "bb = boundaryBytesOf boundary"
  define body where "body = bb @ [45, 45]"
  have len: "2 \<le> length bb" by (simp add: bb_def boundaryBytesOf_length)
  have "firstOccurrence bb (bb @ [45, 45]) = Some 0"
    using firstOccurrence_append [of bb "[]" "[45, 45]"] len by (cases bb) auto
  then have fb0: "findBoundary body bb 0 = Some 0"
    by (simp add: findBoundary_def findSequence_firstOccurrence body_def)
  have lt: "length bb < length body" by (simp add: body_def)
  have skip: "skipCRLF body (length bb) = length bb"
    by (simp add: skipCRLF_def body_def)
  have fb: "findBoundary body bb (length bb) = map_option (\<lambda>r. length bb + r) (firstOccurrence bb [45, 45])"
    by (simp add: findBoundary_def findSequence_firstOccurrence body_def)
  have loop: "parseLoop L body boundary (length bb) [] = []"
  proof (cases "firstOccurrence bb [45, 45]")
    case None
    have "findBoundary body bb (skipCRLF body (length bb)) = None"
      unfolding skip fb None by simp
    from parseLoop_step_none [OF lt [unfolded bb_def] this [unfolded bb_def], of L "[]"] show ?thesis
      by (simp add: bb_def)
  next
    case (Some r)
    from firstOccurrence_Some_le [OF Some] len have r: "r = 0" and l2: "length bb = 2"
      by simp_all
    have nb: "findBoundary body bb (skipCRLF body (length bb)) = Some (length bb)"
      using fb Some r by (simp add: skip)
    have nt: "\<not> isTerminal body (length bb + length bb)"
      using l2 by (simp add: isTerminal_def byteAt_def body_def)
    have sl: "slice body (skipCRLF body (length bb)) (length bb) = []"
      by (simp add: skip slice_def)
    have e: "length bb + length bb = length body"
      using l2 by (simp add: body_def)
    from parseLoop_step_continue [OF lt [unfolded bb_def] nb [unfolded bb_def] nt [unfolded bb_def], of L "[]", unfolded sl [unfolded bb_def]]
    show ?thesis
      unfolding bb_def [symmetric] e by (simp add: parsePart_Nil pushPart_def parseLoop_end)
  qed
  from fb0 loop show ?thesis
    by (simp add: parseMultipartParts_def body_def bb_def)
qed

lemma parseMultipartParts_encodeBody_gen:
  assumes "\<And>t. t \<in> set ts \<Longrightarrow> headerSafe t"
    and "\<And>t. t \<in> set ts \<Longrightarrow> \<not> sublist (boundaryBytesOf boundary) (encodePart t)"
    and "10 \<notin> set (boundaryBytesOf boundary)"
  shows "parseMultipartParts L (encodeBody boundary ts) boundary =
     map (\<lambda>t. t \<lparr> filename := orNull (filename t) \<rparr>) ts"
proof (cases "ts = []")
  case True
  then show ?thesis
    by (simp add: encodeBody_def blocksBody_def parseMultipartParts_terminal_only)
next
  case False
  have free: "\<not> sublist (boundaryBytesOf boundary) (blk @ butlast (boundaryBytesOf boundary))"
    if "blk \<in> set (map encodePart ts)" for blk
    using that boundary_free_encodePart [OF assms(2) assms(3)] by auto
  have ne: "map encodePart ts \<noteq> []" using False by simp
  have "parseMultipartParts L (blocksBody (boundaryBytesOf boundary) (map encodePart ts) @ []) boundary =
      List.map_filter (parsePart L) (map encodePart ts)"
    by (rule parseMultipartParts_blocks [OF free ne])
  also have "\<dots> = map (\<lambda>t. t \<lparr> filename := orNull (filename t) \<rparr>) ts"
    using assms(1)
  proof (induction ts)
    case Nil
    then show ?case by simp
  next
    case (Cons t ts)
    then show ?case
      by (simp add: parsePart_encodePart_gen)
  qed
  finally show ?thesis by (simp add: encodeBody_def)
qed

lemma parseMultipartParts_no_boundary:
  assumes "\<not> sublist (boundaryBytesOf boundary) uint8Array"
  shows "parseMultipartParts L uint8Array boundary = []"
proof -
  from assms have "firstOccurrence (boundaryBytesOf boundary) uint8Array = None"
    by (simp add: firstOccurrence_None_iff)
  then have "findBoundary uint8Array (boundaryBytesOf boundary) 0 = None"
    by (simp add: findBoundary_def findSequence_firstOccurrence)
  then show ?thesis
    by (simp add: parseMultipartParts_def)
qed

section \<open>Lemmas: parts of the output and their blocks\<close>

lemma parsePart_no_separator: "\<not> sublist CRLFCRLF blk \<Longrightarrow> parsePart L blk = None"
  by (simp add: parsePart_eq firstOccurrence_None_iff [symmetric])

lemma first_separator:
  assumes "\<not> sublist CRLFCRLF (h @ [13, 10, 13])"
  shows "firstOccurrence CRLFCRLF (h @ CRLFCRLF @ c) = Some (length h)"
  using firstOccurrence_append [of CRLFCRLF h c] assms by (simp add: CRLFCRLF_def)

lemma parsePart_separator:
  assumes "\<not> sublist CRLFCRLF (h @ [13, 10, 13])"
  shows "parsePart L (h @ CRLFCRLF @ c) =
     partOfHeaders (parseHeaders L (textDecode h)) (stripFinalCRLF c)"
  by (rule parsePart_first_separator [OF first_separator [OF assms]])

lemma parsePart_Some_decomp:
  assumes "parsePart L blk = Some p"
  shows "\<exists>h c. blk = h @ CRLFCRLF @ c \<and> \<not> sublist CRLFCRLF (h @ [13, 10, 13])
           \<and> partOfHeaders (parseHeaders L (textDecode h)) (stripFinalCRLF c) = Some p"
proof -
  from assms obtain e where e: "firstOccurrence CRLFCRLF blk = Some e"
    by (auto simp: parsePart_eq split: option.splits)
  have ne: "CRLFCRLF \<noteq> []" by (simp add: CRLFCRLF_def)
  have len: "e + length CRLFCRLF = e + 4" and bl: "butlast CRLFCRLF = [13, 10, 13]"
    by (simp_all add: CRLFCRLF_def)
  from firstOccurrence_Some_decomp [OF e ne, unfolded len bl]
  have d: "blk = take e blk @ CRLFCRLF @ drop (e + 4) blk"
    and f: "\<not> sublist CRLFCRLF (take e blk @ [13, 10, 13])"
    by blast+
  from assms e have "partOfHeaders (parseHeaders L (textDecode (take e blk)))
      (stripFinalCRLF (drop (e + 4) blk)) = Some p"
    by (simp add: parsePart_eq)
  with d f show ?thesis by blast
qed

lemma partOfHeaders_data: "partOfHeaders hdrs content = Some p \<Longrightarrow> data p = content"
  by (auto simp: partOfHeaders_def split: option.splits)

lemma partOfHeaders_no_disposition:
  "hdrs (js ''content-disposition'') = None \<Longrightarrow> partOfHeaders hdrs content = None"
  by (simp add: partOfHeaders_def orNull_def)

lemma sublist_slice: "sublist (slice xs i j) xs"
proof -
  have "xs = take i xs @ take (j - i) (drop i xs) @ drop (j - i) (drop i xs)"
    by (metis append_take_drop_id)
  then show ?thesis
    unfolding slice_def sublist_def by blast
qed

lemma set_pushPart:
  "p \<in> set (pushPart parts r) \<longleftrightarrow> p \<in> set parts \<or> r = Some p"
  by (auto simp: pushPart_def split: option.splits)

lemma parseLoop_parts:
  "p \<in> set (parseLoop L uint8Array boundary position parts) \<Longrightarrow>
   p \<in> set parts \<or> (\<exists>i j. parsePart L (slice uint8Array i j) = Some p)"
proof (induction L uint8Array boundary position parts rule: parseLoop.induct)
  case (1 L uint8Array boundary position parts)
  show ?case
  proof (cases "position < length uint8Array")
    case False
    with "1.prems" show ?thesis
      by (simp add: parseLoop.simps [of L uint8Array boundary position parts])
  next
    case lt: True
    show ?thesis
    proof (cases "findBoundary uint8Array (boundaryBytesOf boundary) (skipCRLF uint8Array position)")
      case None
      with lt "1.prems" show ?thesis
        by (simp add: parseLoop_step_none)
    next
      case (Some nb)
      let ?r = "parsePart L (slice uint8Array (skipCRLF uint8Array position) nb)"
      show ?thesis
      proof (cases "isTerminal uint8Array (nb + length (boundaryBytesOf boundary))")
        case True
        from "1.prems" have "p \<in> set (pushPart parts ?r)"
          by (simp add: parseLoop_step_terminal [OF lt Some True])
        then show ?thesis by (auto simp: set_pushPart)
      next
        case False
        from "1.prems" have "p \<in> set (parseLoop L uint8Array boundary
            (nb + length (boundaryBytesOf boundary)) (pushPart parts ?r))"
          by (simp add: parseLoop_step_continue [OF lt Some False])
        from "1.IH" [OF lt Some False this] show ?thesis
          by (auto simp: set_pushPart)
      qed
    qed
  qed
qed

lemma parseMultipartParts_parts:
  assumes "p \<in> set (parseMultipartParts L uint8Array boundary)"
  shows "\<exists>blk. sublist blk uint8Array \<and> parsePart L blk = Some p"
proof -
  from assms obtain pos where
    "p \<in> set (parseLoop L uint8Array boundary (pos + length (boundaryBytesOf boundary)) [])"
    by (auto simp: parseMultipartParts_def split: option.splits)
  from parseLoop_parts [OF this] obtain i j where "parsePart L (slice uint8Array i j) = Some p"
    by auto
  with sublist_slice [of uint8Array i j] show ?thesis by blast
qed

text \<open>Strings of ASCII characters, written as bytes and as code units.\<close>

lemma textDecode_ascii_literal:
  assumes "list_all (\<lambda>c. (of_char c :: nat) < 128) s"
  shows "textDecode (ascii s) = js s"
proof -
  have b: "list_all (\<lambda>b. b < 0x80) (ascii s)"
    using assms
    by (induction s) (simp_all add: ascii_def word_less_nat_alt unat_of_nat)
  have "map ucast (ascii s) = js s"
    using assms
  proof (induction s)
    case Nil
    then show ?case by (simp add: ascii_def js_def)
  next
    case (Cons c s)
    then have "(of_char c :: nat) < 128" by simp
    then have "ucast (of_nat (of_char c) :: byte) = (of_nat (of_char c) :: codeunit)"
      by (simp add: word_unat_eq_iff unsigned_ucast_eq unat_of_nat take_bit_nat_eq_self)
    with Cons show ?case by (simp add: ascii_def js_def)
  qed
  with textDecode_ascii [OF b] show ?thesis by simp
qed

section \<open>Lemmas: the number of iterations\<close>

lemma parseLoopFuel_enough:
  "length uint8Array - position < n \<Longrightarrow>
   parseLoopFuel n L uint8Array boundary position parts =
     Some (parseLoop L uint8Array boundary position parts)"
proof (induction n arbitrary: position parts)
  case 0
  then show ?case by simp
next
  case (Suc n)
  show ?case
  proof (cases "position < length uint8Array")
    case False
    then show ?thesis
      by (simp add: parseLoop.simps [of L uint8Array boundary position parts])
  next
    case lt: True
    show ?thesis
    proof (cases "findBoundary uint8Array (boundaryBytesOf boundary) (skipCRLF uint8Array position)")
      case None
      with lt show ?thesis by (simp add: parseLoop_step_none)
    next
      case (Some nb)
      show ?thesis
      proof (cases "isTerminal uint8Array (nb + length (boundaryBytesOf boundary))")
        case True
        with lt Some show ?thesis by (simp add: parseLoop_step_terminal)
      next
        case False
        from findBoundary_ge [OF Some] skipCRLF_ge [of position uint8Array]
        have "position \<le> nb" by simp
        with boundaryBytesOf_length [of boundary] lt Suc.prems
        have "length uint8Array - (nb + length (boundaryBytesOf boundary)) < n"
          by simp
        from Suc.IH [OF this] lt Some False show ?thesis
          by (simp add: parseLoop_step_continue)
      qed
    qed
  qed
qed

lemma parseMultipartPartsFuel_enough:
  "parseMultipartPartsFuel (length uint8Array) L uint8Array boundary =
     Some (parseMultipartParts L uint8Array boundary)"
proof (cases "findBoundary uint8Array (boundaryBytesOf boundary) 0")
  case None
  then show ?thesis
    by (simp add: parseMultipartPartsFuel_def parseMultipartParts_def)
next
  case (Some p)
  have "length uint8Array - (p + length (boundaryBytesOf boundary)) < length uint8Array"
  proof -
    from Some have "firstOccurrence (boundaryBytesOf boundary) uint8Array = Some p"
      by (simp add: findBoundary_def findSequence_firstOccurrence option.map_ident)
    from firstOccurrence_Some_le [OF this] boundaryBytesOf_length [of boundary]
    show ?thesis by simp
  qed
  from parseLoopFuel_enough [OF this] Some show ?thesis
    by (simp add: parseMultipartPartsFuel_def parseMultipartParts_def)
qed

section \<open>Lemmas: the header table\<close>

lemma headerLine_lineEntry:
  "headerLine L h line =
     (case lineEntry L line of None \<Rightarrow> h | Some (k, v) \<Rightarrow> setProperty h k v)"
  by (simp add: headerLine_def lineEntry_def split: option.splits)

lemma setProperty_proto: "setProperty h k v protoKey = h protoKey"
  by (simp add: setProperty_def)

lemma setProperty_other:
  "key \<noteq> protoKey \<Longrightarrow> setProperty h k v key = (if key = k then Some v else h key)"
  by (auto simp: setProperty_def)

lemma foldl_headerLine:
  "foldl (headerLine L) h lines key =
     (if key = protoKey then h key
      else case map_of (rev (List.map_filter (lineEntry L) lines)) key of
             None \<Rightarrow> h key | Some v \<Rightarrow> Some v)"
proof (induction lines arbitrary: h)
  case Nil
  then show ?case by simp
next
  case (Cons line lines)
  show ?case
  proof (cases "lineEntry L line")
    case None
    then have "headerLine L h line = h" by (simp add: headerLine_lineEntry)
    with None Cons.IH [of h] show ?thesis by simp
  next
    case (Some e)
    obtain k v where e: "e = (k, v)" by (cases e)
    with Some have s: "headerLine L h line = setProperty h k v"
      by (simp add: headerLine_lineEntry)
    show ?thesis
    proof (cases "key = protoKey")
      case True
      with Cons.IH [of "setProperty h k v"] s show ?thesis
        by (simp add: setProperty_proto)
    next
      case False
      with Cons.IH [of "setProperty h k v"] s Some e show ?thesis
        by (simp add: setProperty_other map_add_def split: option.splits)
    qed
  qed
qed

lemma parseHeaders_entries:
  "parseHeaders L headerText key =
     (if key = protoKey then None else map_of (rev (headerEntries L headerText)) key)"
  by (simp add: parseHeaders_def headerEntries_def foldl_headerLine split: option.splits)

lemma lineEntry_colon:
  assumes "0x3A \<notin> set k" and "k \<noteq> []"
  shows "lineEntry L (k @ 0x3A # v) = Some (toLowerCase L (trim k), trim v)"
  using assms by (simp add: lineEntry_def indexOf_append)

lemma lineEntry_no_colon: "0x3A \<notin> set line \<Longrightarrow> lineEntry L line = None"
  by (simp add: lineEntry_def indexOf_None)

section \<open>Lemmas: the Content-Type header\<close>

lemma strIncludes_sublist: "strIncludes s t \<longleftrightarrow> sublist t s"
  by (induction s) (simp_all add: sublist_Cons_right)

lemma boundaryMatch_Cons:
  "boundaryMatch (c # s) =
     (if length boundaryKey \<le> length (c # s)
         \<and> list_all2 sameLetter boundaryKey (take (length boundaryKey) (c # s))
         \<and> takeWhile (\<lambda>x. x \<noteq> 0x3B) (drop (length boundaryKey) (c # s)) \<noteq> []
      then Some (takeWhile (\<lambda>x. x \<noteq> 0x3B) (drop (length boundaryKey) (c # s)))
      else boundaryMatch s)"
  by (simp add: Let_def)

lemma boundaryMatch_Some:
  "boundaryMatch ct = Some g \<Longrightarrow>
   \<exists>pre kw rest. ct = pre @ kw @ g @ rest \<and> list_all2 sameLetter boundaryKey kw
     \<and> g \<noteq> [] \<and> 0x3B \<notin> set g \<and> (rest = [] \<or> hd rest = 0x3B)"
proof (induction ct)
  case Nil
  then show ?case by simp
next
  case (Cons c s)
  let ?n = "length boundaryKey"
  let ?here = "?n \<le> length (c # s)
      \<and> list_all2 sameLetter boundaryKey (take ?n (c # s))
      \<and> takeWhile (\<lambda>x. x \<noteq> 0x3B) (drop ?n (c # s)) \<noteq> []"
  show ?case
  proof (cases ?here)
    case True
    with Cons.prems have g: "g = takeWhile (\<lambda>x. x \<noteq> 0x3B) (drop ?n (c # s))"
      by (simp only: boundaryMatch_Cons if_True) simp
    let ?rest = "dropWhile (\<lambda>x. x \<noteq> 0x3B) (drop ?n (c # s))"
    have "c # s = [] @ take ?n (c # s) @ g @ ?rest"
      unfolding g by simp
    moreover have "list_all2 sameLetter boundaryKey (take ?n (c # s))" using True by simp
    moreover have "g \<noteq> []" using True g by simp
    moreover have "0x3B \<notin> set g" unfolding g by (auto dest: set_takeWhileD)
    moreover have "?rest = [] \<or> hd ?rest = 0x3B"
      using hd_dropWhile [of "\<lambda>x. x \<noteq> 0x3B" "drop ?n (c # s)"] by auto
    ultimately show ?thesis by blast
  next
    case False
    with Cons.prems have "boundaryMatch s = Some g"
      by (simp only: boundaryMatch_Cons if_False)
    from Cons.IH [OF this] obtain pre kw rest where
      "s = pre @ kw @ g @ rest" "list_all2 sameLetter boundaryKey kw"
      "g \<noteq> []" "0x3B \<notin> set g" "rest = [] \<or> hd rest = 0x3B"
      by blast
    then have "c # s = (c # pre) @ kw @ g @ rest" by simp
    with \<open>list_all2 sameLetter boundaryKey kw\<close> \<open>g \<noteq> []\<close> \<open>0x3B \<notin> set g\<close>
      \<open>rest = [] \<or> hd rest = 0x3B\<close>
    show ?thesis by blast
  qed
qed

lemma boundaryMatch_here:
  assumes "s \<noteq> []" and "length boundaryKey \<le> length s"
    and "list_all2 sameLetter boundaryKey (take (length boundaryKey) s)"
    and "takeWhile (\<lambda>x. x \<noteq> 0x3B) (drop (length boundaryKey) s) \<noteq> []"
  shows "boundaryMatch s = Some (takeWhile (\<lambda>x. x \<noteq> 0x3B) (drop (length boundaryKey) s))"
proof -
  from assms(1) obtain c t where s: "s = c # t" by (cases s) auto
  show ?thesis
    unfolding s boundaryMatch_Cons using assms(2-4) by (simp only: s [symmetric] simp_thms if_True)
qed

lemma boundaryMatch_found:
  assumes "list_all2 sameLetter boundaryKey kw" and "c \<noteq> 0x3B"
  shows "boundaryMatch (pre @ kw @ c # rest) \<noteq> None"
proof (induction pre)
  case Nil
  from assms(1) have l: "length kw = length boundaryKey"
    by (simp add: list_all2_lengthD)
  have t: "take (length boundaryKey) (kw @ c # rest) = kw"
    and d: "drop (length boundaryKey) (kw @ c # rest) = c # rest"
    using l by simp_all
  have "boundaryMatch (kw @ c # rest) =
      Some (takeWhile (\<lambda>x. x \<noteq> 0x3B) (drop (length boundaryKey) (kw @ c # rest)))"
    by (rule boundaryMatch_here) (use assms l in \<open>simp_all add: t d\<close>)
  then show ?case by simp
next
  case (Cons x pre)
  then show ?case
    by (simp only: append_Cons boundaryMatch_Cons) simp
qed

lemma boundaryMatch_None_iff:
  "boundaryMatch ct = None \<longleftrightarrow>
     \<not> (\<exists>pre kw c rest. ct = pre @ kw @ c # rest \<and> list_all2 sameLetter boundaryKey kw \<and> c \<noteq> 0x3B)"
proof
  assume n: "boundaryMatch ct = None"
  show "\<not> (\<exists>pre kw c rest. ct = pre @ kw @ c # rest \<and> list_all2 sameLetter boundaryKey kw \<and> c \<noteq> 0x3B)"
  proof
    assume "\<exists>pre kw c rest. ct = pre @ kw @ c # rest \<and> list_all2 sameLetter boundaryKey kw \<and> c \<noteq> 0x3B"
    then obtain pre kw c rest where "ct = pre @ kw @ c # rest"
      "list_all2 sameLetter boundaryKey kw" "c \<noteq> 0x3B"
      by blast
    with boundaryMatch_found [of kw c pre rest] n show False by simp
  qed
next
  assume a: "\<not> (\<exists>pre kw c rest. ct = pre @ kw @ c # rest \<and> list_all2 sameLetter boundaryKey kw \<and> c \<noteq> 0x3B)"
  show "boundaryMatch ct = None"
  proof (rule ccontr)
    assume "boundaryMatch ct \<noteq> None"
    then obtain g where "boundaryMatch ct = Some g" by auto
    from boundaryMatch_Some [OF this] obtain pre kw rest where
      c: "ct = pre @ kw @ g @ rest" and k: "list_all2 sameLetter boundaryKey kw"
      and g: "g \<noteq> []" "0x3B \<notin> set g"
      by blast
    from g obtain x g' where x: "g = x # g'" "x \<noteq> 0x3B" by (cases g) auto
    with c have "ct = pre @ kw @ x # (g' @ rest)" by simp
    with k x(2) a show False by blast
  qed
qed

lemma trim_spec:
  assumes "list_all isWhiteSpace ws1" and "list_all isWhiteSpace ws2"
    and "core = [] \<or> (\<not> isWhiteSpace (hd core) \<and> \<not> isWhiteSpace (last core))"
  shows "trim (ws1 @ core @ ws2) = core"
proof (cases "core = []")
  case True
  from assms(1,2) have "\<forall>x\<in>set (ws1 @ ws2). isWhiteSpace x"
    by (auto simp: list_all_iff)
  then have d: "dropWhile isWhiteSpace (ws1 @ ws2) = []"
    by (simp only: dropWhile_eq_Nil_conv)
  show ?thesis
    unfolding True trim_def append_Nil d by simp
next
  case False
  with assms(3) have h: "\<not> isWhiteSpace (hd core)" and l: "\<not> isWhiteSpace (last core)" by simp_all
  from False obtain x xs where c: "core = x # xs" by (cases core) auto
  have 1: "dropWhile isWhiteSpace (ws1 @ core @ ws2) = core @ ws2"
    using assms(1) h c by (simp add: dropWhile_append3 list_all_iff dropWhile_append)
  from False obtain ys y where r: "core = ys @ [y]" by (cases core rule: rev_cases) auto
  with l have y: "\<not> isWhiteSpace y" by simp
  have "dropWhile isWhiteSpace (rev (core @ ws2)) = rev core"
    using assms(2) y by (simp add: r list_all_iff dropWhile_append)
  with 1 show ?thesis by (simp add: trim_def)
qed

lemma stripQuotes_both:
  "isQuoteChar q \<Longrightarrow> isQuoteChar q' \<Longrightarrow> stripQuotes (q # s @ [q']) = s"
  by (simp add: stripQuotes_def stripLeadingQuote_def stripTrailingQuote_def)

lemma stripQuotes_none:
  "s \<noteq> [] \<Longrightarrow> \<not> isQuoteChar (hd s) \<Longrightarrow> \<not> isQuoteChar (last s) \<Longrightarrow> stripQuotes s = s"
  by (cases s) (simp_all add: stripQuotes_def stripLeadingQuote_def stripTrailingQuote_def)

lemma messages_differ: "wrongContentType \<noteq> noBoundary"
  by (simp add: wrongContentType_def noBoundary_def js_def)

section \<open>The claims\<close>

subsection \<open>C1\<close>





subsection \<open>C2\<close>

lemma formData_no_header:
  "contentTypeHeader req = None \<Longrightarrow> parseMultipartFormData L req = Inl (Error wrongContentType)"
  by (simp add: parseMultipartFormData_def orNull_def)

lemma formData_wrong_type:
  assumes "contentTypeHeader req = Some ct" and "\<not> sublist (js ''multipart/form-data'') ct"
  shows "parseMultipartFormData L req = Inl (Error wrongContentType)"
  using assms by (simp add: parseMultipartFormData_def orNull_def strIncludes_sublist)

lemma formData_no_boundary:
  assumes "contentTypeHeader req = Some ct" and "sublist (js ''multipart/form-data'') ct"
    and "boundaryMatch ct = None"
  shows "parseMultipartFormData L req = Inl (Error noBoundary)"
proof -
  from assms(2) have "ct \<noteq> []" by (auto simp: js_def)
  with assms show ?thesis
    by (simp add: parseMultipartFormData_def orNull_def strIncludes_sublist)
qed

lemma formData_parsed:
  assumes "contentTypeHeader req = Some ct" and "sublist (js ''multipart/form-data'') ct"
    and "boundaryMatch ct = Some g"
  shows "parseMultipartFormData L req =
     Inr (foldl appendPart [] (parseMultipartParts L (body req) (stripQuotes (trim g))))"
proof -
  from assms(2) have "ct \<noteq> []" by (auto simp: js_def)
  with assms show ?thesis
    by (simp add: parseMultipartFormData_def orNull_def strIncludes_sublist)
qed

lemma header_cases [case_names absent wrong nob ok]:
  assumes "contentTypeHeader req = None \<Longrightarrow> P"
    and "\<And>ct. contentTypeHeader req = Some ct \<Longrightarrow> \<not> sublist (js ''multipart/form-data'') ct \<Longrightarrow> P"
    and "\<And>ct. contentTypeHeader req = Some ct \<Longrightarrow> sublist (js ''multipart/form-data'') ct \<Longrightarrow>
           boundaryMatch ct = None \<Longrightarrow> P"
    and "\<And>ct g. contentTypeHeader req = Some ct \<Longrightarrow> sublist (js ''multipart/form-data'') ct \<Longrightarrow>
           boundaryMatch ct = Some g \<Longrightarrow> P"
  shows P
proof (cases "contentTypeHeader req")
  case None
  then show ?thesis by (rule assms(1))
next
  case (Some ct)
  show ?thesis
  proof (cases "sublist (js ''multipart/form-data'') ct")
    case False
    with Some show ?thesis by (rule assms(2))
  next
    case True
    show ?thesis
    proof (cases "boundaryMatch ct")
      case None
      with Some True show ?thesis by (rule assms(3))
    next
      case (Some g)
      with \<open>contentTypeHeader req = Some ct\<close> True show ?thesis by (rule assms(4))
    qed
  qed
qed

text \<open>
  Claim C2. \<^verbatim>\<open>parseMultipartFormData\<close> fails with \<^verbatim>\<open>Content-Type must be multipart/form-data\<close>
  exactly when the header is absent or does not contain \<^verbatim>\<open>multipart/form-data\<close>, and with
  \<^verbatim>\<open>No boundary found in Content-Type\<close> exactly when the header contains that text and no
  \<^verbatim>\<open>boundary=\<close> (in any letter case) with a character other than \<^verbatim>\<open>;\<close> behind it; it fails with
  no other error. Otherwise the value of the parameter, which runs up to the next \<^verbatim>\<open>;\<close>, is
  trimmed of white space, loses one quote character at its start and one at its end, and is
  the boundary with which the body is parsed.
\<close>

theorem C2_hard_errors:
  "(parseMultipartFormData L req = Inl (Error wrongContentType) \<longleftrightarrow>
      contentTypeHeader req = None
      \<or> (\<exists>ct. contentTypeHeader req = Some ct \<and> \<not> sublist (js ''multipart/form-data'') ct))
   \<and> (parseMultipartFormData L req = Inl (Error noBoundary) \<longleftrightarrow>
      (\<exists>ct. contentTypeHeader req = Some ct \<and> sublist (js ''multipart/form-data'') ct
         \<and> \<not> (\<exists>pre kw c rest. ct = pre @ kw @ c # rest
                \<and> list_all2 sameLetter boundaryKey kw \<and> c \<noteq> 0x3B)))
   \<and> (\<forall>e. parseMultipartFormData L req = Inl e \<longrightarrow>
         e = Error wrongContentType \<or> e = Error noBoundary)
   \<and> (\<forall>ct g. contentTypeHeader req = Some ct \<longrightarrow> sublist (js ''multipart/form-data'') ct \<longrightarrow>
         boundaryMatch ct = Some g \<longrightarrow>
         parseMultipartFormData L req =
           Inr (foldl appendPart [] (parseMultipartParts L (body req) (stripQuotes (trim g))))
         \<and> (\<exists>pre kw rest. ct = pre @ kw @ g @ rest \<and> list_all2 sameLetter boundaryKey kw
               \<and> g \<noteq> [] \<and> 0x3B \<notin> set g \<and> (rest = [] \<or> hd rest = 0x3B)))
   \<and> (\<forall>ws1 core ws2. list_all isWhiteSpace ws1 \<longrightarrow> list_all isWhiteSpace ws2 \<longrightarrow>
         core = [] \<or> (\<not> isWhiteSpace (hd core) \<and> \<not> isWhiteSpace (last core)) \<longrightarrow>
         trim (ws1 @ core @ ws2) = core)
   \<and> (\<forall>q s q'. isQuoteChar q \<longrightarrow> isQuoteChar q' \<longrightarrow> stripQuotes (q # s @ [q']) = s)
   \<and> (\<forall>s. s \<noteq> [] \<longrightarrow> \<not> isQuoteChar (hd s) \<longrightarrow> \<not> isQuoteChar (last s) \<longrightarrow> stripQuotes s = s)"
proof -
  let ?mfd = "js ''multipart/form-data''"
  let ?res = "parseMultipartFormData L req"
  let ?param = "\<lambda>ct. \<exists>pre kw c rest. ct = pre @ kw @ c # rest
      \<and> list_all2 sameLetter boundaryKey kw \<and> c \<noteq> 0x3B"
  have A: "?res = Inl (Error wrongContentType) \<longleftrightarrow>
      contentTypeHeader req = None \<or> (\<exists>ct. contentTypeHeader req = Some ct \<and> \<not> sublist ?mfd ct)"
  proof (cases req rule: header_cases)
    case absent
    then show ?thesis by (simp add: formData_no_header)
  next
    case (wrong ct)
    then show ?thesis by (simp add: formData_wrong_type)
  next
    case (nob ct)
    then show ?thesis by (simp add: formData_no_boundary messages_differ [symmetric])
  next
    case (ok ct g)
    then show ?thesis by (simp add: formData_parsed)
  qed
  define param where "param = ?param"
  have B': "?res = Inl (Error noBoundary) \<longleftrightarrow>
      (\<exists>ct. contentTypeHeader req = Some ct \<and> sublist ?mfd ct \<and> \<not> param ct)"
  proof (cases req rule: header_cases)
    case absent
    then show ?thesis by (simp add: formData_no_header messages_differ)
  next
    case (wrong ct)
    then show ?thesis by (simp add: formData_wrong_type messages_differ)
  next
    case (nob ct)
    have "\<not> param ct" unfolding param_def using nob(3) by (rule iffD1 [OF boundaryMatch_None_iff])
    with nob show ?thesis by (simp add: formData_no_boundary)
  next
    case (ok ct g)
    then have n: "boundaryMatch ct \<noteq> None" by simp
    have "param ct"
    proof (rule ccontr)
      assume "\<not> param ct"
      then have "boundaryMatch ct = None"
        unfolding param_def by (rule iffD2 [OF boundaryMatch_None_iff])
      with n show False by simp
    qed
    with ok show ?thesis by (simp add: formData_parsed)
  qed
  have B: "?res = Inl (Error noBoundary) \<longleftrightarrow>
      (\<exists>ct. contentTypeHeader req = Some ct \<and> sublist ?mfd ct \<and> \<not> ?param ct)"
    using B' unfolding param_def .
  have C: "\<forall>e. ?res = Inl e \<longrightarrow> e = Error wrongContentType \<or> e = Error noBoundary"
  proof (cases req rule: header_cases)
    case absent
    then show ?thesis by (simp add: formData_no_header)
  next
    case (wrong ct)
    then show ?thesis by (simp add: formData_wrong_type)
  next
    case (nob ct)
    then show ?thesis by (simp add: formData_no_boundary)
  next
    case (ok ct g)
    then show ?thesis by (simp add: formData_parsed)
  qed
  have D: "\<forall>ct g. contentTypeHeader req = Some ct \<longrightarrow> sublist ?mfd ct \<longrightarrow>
      boundaryMatch ct = Some g \<longrightarrow>
      ?res = Inr (foldl appendPart [] (parseMultipartParts L (body req) (stripQuotes (trim g))))
      \<and> (\<exists>pre kw rest. ct = pre @ kw @ g @ rest \<and> list_all2 sameLetter boundaryKey kw
            \<and> g \<noteq> [] \<and> 0x3B \<notin> set g \<and> (rest = [] \<or> hd rest = 0x3B))"
  proof (intro allI impI conjI)
    fix ct g
    assume "contentTypeHeader req = Some ct" and "sublist ?mfd ct" and "boundaryMatch ct = Some g"
    then show "?res = Inr (foldl appendPart [] (parseMultipartParts L (body req) (stripQuotes (trim g))))"
      by (rule formData_parsed)
  next
    fix ct g
    assume "boundaryMatch ct = Some g"
    then show "\<exists>pre kw rest. ct = pre @ kw @ g @ rest \<and> list_all2 sameLetter boundaryKey kw
        \<and> g \<noteq> [] \<and> 0x3B \<notin> set g \<and> (rest = [] \<or> hd rest = 0x3B)"
      by (rule boundaryMatch_Some)
  qed
  have E: "\<forall>ws1 core ws2. list_all isWhiteSpace ws1 \<longrightarrow> list_all isWhiteSpace ws2 \<longrightarrow>
      core = [] \<or> (\<not> isWhiteSpace (hd core) \<and> \<not> isWhiteSpace (last core)) \<longrightarrow>
      trim (ws1 @ core @ ws2) = core"
    by (intro allI impI) (rule trim_spec)
  have F: "\<forall>q s q'. isQuoteChar q \<longrightarrow> isQuoteChar q' \<longrightarrow> stripQuotes (q # s @ [q']) = s"
    by (intro allI impI) (rule stripQuotes_both)
  have G: "\<forall>s. s \<noteq> [] \<longrightarrow> \<not> isQuoteChar (hd s) \<longrightarrow> \<not> isQuoteChar (last s) \<longrightarrow> stripQuotes s = s"
    by (intro allI impI) (rule stripQuotes_none)
  show ?thesis
    by (intro conjI) (rule A B C D E F G)+
qed


theorem C2_hard_errors_witness:
  \<open>parseMultipartFormData id \<lparr> contentTypeHeader = None, body = [] \<rparr> =
     Inl (Error wrongContentType)
   \<and> \<not> sublist (js ''multipart/form-data'') (js ''text/plain'')
   \<and> parseMultipartFormData id \<lparr> contentTypeHeader = Some (js ''text/plain''), body = [] \<rparr> =
       Inl (Error wrongContentType)
   \<and> sublist (js ''multipart/form-data'') (js ''multipart/form-data; x=1'')
   \<and> \<not> (\<exists>pre kw c rest. js ''multipart/form-data; x=1'' = pre @ kw @ c # rest
          \<and> list_all2 sameLetter boundaryKey kw \<and> c \<noteq> 0x3B)
   \<and> parseMultipartFormData id
        \<lparr> contentTypeHeader = Some (js ''multipart/form-data; x=1''), body = [] \<rparr> =
       Inl (Error noBoundary)
   \<and> sublist (js ''multipart/form-data'') (js ''multipart/form-data; BOUNDARY= "X" ; charset=utf-8'')
   \<and> boundaryMatch (js ''multipart/form-data; BOUNDARY= "X" ; charset=utf-8'') = Some (js '' "X" '')
   \<and> parseMultipartFormData id
        \<lparr> contentTypeHeader = Some (js ''multipart/form-data; BOUNDARY= "X" ; charset=utf-8''),
          body = ascii ''--X--'' \<rparr> =
       Inr (foldl appendPart [] (parseMultipartParts id (ascii ''--X--'') (stripQuotes (trim (js '' "X" '')))))
   \<and> list_all isWhiteSpace (js '' '')
   \<and> \<not> isWhiteSpace (hd (js ''"X"'')) \<and> \<not> isWhiteSpace (last (js ''"X"''))
   \<and> trim (js '' '' @ js ''"X"'' @ js '' '') = js ''"X"''
   \<and> isQuoteChar 0x22
   \<and> stripQuotes (0x22 # js ''X'' @ [0x22]) = js ''X''
   \<and> js ''X'' \<noteq> [] \<and> \<not> isQuoteChar (hd (js ''X'')) \<and> \<not> isQuoteChar (last (js ''X''))
   \<and> stripQuotes (js ''X'') = js ''X''\<close>
proof -
  let ?mfd = "js ''multipart/form-data''"
  let ?r1 = "\<lparr> contentTypeHeader = None, body = [] \<rparr>"
  let ?r2 = "\<lparr> contentTypeHeader = Some (js ''text/plain''), body = [] \<rparr>"
  let ?c3 = "js ''multipart/form-data; x=1''"
  let ?r3 = "\<lparr> contentTypeHeader = Some ?c3, body = [] \<rparr>"
  let ?c4 = \<open>js ''multipart/form-data; BOUNDARY= "X" ; charset=utf-8''\<close>
  let ?r4 = "\<lparr> contentTypeHeader = Some ?c4, body = ascii ''--X--'' \<rparr>"
  let ?g = \<open>js '' "X" ''\<close>
  have 1: "parseMultipartFormData id ?r1 = Inl (Error wrongContentType)"
    by (rule iffD2 [OF conjunct1 [OF C2_hard_errors [of id ?r1]]]) simp
  have n2: "\<not> sublist ?mfd (js ''text/plain'')" by code_simp
  have 2: "parseMultipartFormData id ?r2 = Inl (Error wrongContentType)"
    by (rule iffD2 [OF conjunct1 [OF C2_hard_errors [of id ?r2]]]) (use n2 in simp)
  have s3: "sublist ?mfd ?c3" by code_simp
  have "boundaryMatch ?c3 = None" by code_simp
  then have n3: "\<not> (\<exists>pre kw c rest. ?c3 = pre @ kw @ c # rest
      \<and> list_all2 sameLetter boundaryKey kw \<and> c \<noteq> 0x3B)"
    by (rule iffD1 [OF boundaryMatch_None_iff])
  have 3: "parseMultipartFormData id ?r3 = Inl (Error noBoundary)"
  proof (rule iffD2 [OF conjunct1 [OF conjunct2 [OF C2_hard_errors [of id ?r3]]]])
    have "contentTypeHeader ?r3 = Some ?c3" by simp
    with s3 n3 show "\<exists>ct. contentTypeHeader ?r3 = Some ct \<and> sublist ?mfd ct
        \<and> \<not> (\<exists>pre kw c rest. ct = pre @ kw @ c # rest
              \<and> list_all2 sameLetter boundaryKey kw \<and> c \<noteq> 0x3B)"
      by (intro exI [of _ ?c3] conjI)
  qed
  have s4: "sublist ?mfd ?c4" by code_simp
  have m4: "boundaryMatch ?c4 = Some ?g" by code_simp
  have h4: "contentTypeHeader ?r4 = Some ?c4" by simp
  note t4 = C2_hard_errors [of id ?r4]
  from t4 have "\<forall>ct g. contentTypeHeader ?r4 = Some ct \<longrightarrow> sublist ?mfd ct \<longrightarrow>
      boundaryMatch ct = Some g \<longrightarrow>
      parseMultipartFormData id ?r4 =
        Inr (foldl appendPart [] (parseMultipartParts id (body ?r4) (stripQuotes (trim g))))
      \<and> (\<exists>pre kw rest. ct = pre @ kw @ g @ rest \<and> list_all2 sameLetter boundaryKey kw
            \<and> g \<noteq> [] \<and> 0x3B \<notin> set g \<and> (rest = [] \<or> hd rest = 0x3B))"
    by (elim conjE)
  from this [rule_format, OF h4 s4 m4]
  have 4: "parseMultipartFormData id ?r4 =
      Inr (foldl appendPart [] (parseMultipartParts id (ascii ''--X--'') (stripQuotes (trim ?g))))"
    by simp
  have w: "list_all isWhiteSpace (js '' '')" by code_simp
  have c: \<open>\<not> isWhiteSpace (hd (js ''"X"''))\<close> \<open>\<not> isWhiteSpace (last (js ''"X"''))\<close>
    by code_simp+
  from t4 have "\<forall>ws1 core ws2. list_all isWhiteSpace ws1 \<longrightarrow> list_all isWhiteSpace ws2 \<longrightarrow>
      core = [] \<or> (\<not> isWhiteSpace (hd core) \<and> \<not> isWhiteSpace (last core)) \<longrightarrow>
      trim (ws1 @ core @ ws2) = core"
    by (elim conjE)
  from this [rule_format, OF w w disjI2 [OF conjI [OF c]]]
  have 5: \<open>trim (js '' '' @ js ''"X"'' @ js '' '') = js ''"X"''\<close> .
  have q: "isQuoteChar 0x22" by code_simp
  from t4 have "\<forall>q s q'. isQuoteChar q \<longrightarrow> isQuoteChar q' \<longrightarrow> stripQuotes (q # s @ [q']) = s"
    by (elim conjE)
  from this [rule_format, OF q q]
  have 6: "stripQuotes (0x22 # js ''X'' @ [0x22]) = js ''X''" .
  have x: "js ''X'' \<noteq> []" "\<not> isQuoteChar (hd (js ''X''))" "\<not> isQuoteChar (last (js ''X''))"
    by code_simp+
  from t4 have "\<forall>s. s \<noteq> [] \<longrightarrow> \<not> isQuoteChar (hd s) \<longrightarrow> \<not> isQuoteChar (last s) \<longrightarrow> stripQuotes s = s"
    by (elim conjE)
  from this [rule_format, OF x]
  have 7: "stripQuotes (js ''X'') = js ''X''" .
  show ?thesis
    by (intro conjI) (rule 1 n2 2 s3 n3 3 s4 m4 4 w c 5 q 6 x 7)+
qed

subsection \<open>C3\<close>

lemma parsePart_nameless:
  assumes "\<not> sublist CRLFCRLF (h @ [13, 10, 13])"
    and "parseHeaders L (textDecode h) (js ''content-disposition'') = Some cd"
    and "cd \<noteq> []"
    and "matchQuoted nameKey cd = None"
  shows "parsePart L (h @ CRLFCRLF @ c) =
     Some \<lparr> name = [], filename = matchQuoted filenameKey cd,
            contentType = orNull (parseHeaders L (textDecode h) (js ''content-type'')),
            data = stripFinalCRLF c \<rparr>"
  unfolding parsePart_separator [OF assms(1)]
  using assms(2-4) by (simp add: partOfHeaders_def orNull_def)

lemma parseMultipartParts_two_blocks:
  assumes "list_all (\<lambda>b. \<not> sublist (boundaryBytesOf boundary) (b @ butlast (boundaryBytesOf boundary)))
             [blk, nxt]"
  shows "parseMultipartParts L (blocksBody (boundaryBytesOf boundary) [blk, nxt]) boundary =
     List.map_filter (parsePart L) [blk, nxt]"
proof -
  have "parseMultipartParts L (blocksBody (boundaryBytesOf boundary) [blk, nxt] @ []) boundary =
      List.map_filter (parsePart L) [blk, nxt]"
    by (rule parseMultipartParts_blocks) (use assms in auto)
  then show ?thesis by simp
qed




subsection \<open>C4\<close>




subsection \<open>C5\<close>

text \<open>
  Claim C5. A block without the four bytes CR LF CR LF, or whose parsed headers have no
  \<^verbatim>\<open>content-disposition\<close> entry, makes \<^verbatim>\<open>parsePart\<close> return \<^verbatim>\<open>null\<close>; in a body of blocks (none of
  which holds the boundary pattern) such a block adds nothing to the result, and the parts of
  the blocks before and after it are returned, in their order.
\<close>

theorem C5_malformed_block_dropped:
  assumes "list_all (\<lambda>b. \<not> sublist (boundaryBytesOf boundary) (b @ butlast (boundaryBytesOf boundary)))
             (pre @ blk # post)"
    and "\<not> sublist CRLFCRLF blk
         \<or> (\<exists>h c. blk = h @ CRLFCRLF @ c \<and> \<not> sublist CRLFCRLF (h @ [13, 10, 13])
                \<and> parseHeaders L (textDecode h) (js ''content-disposition'') = None)"
  shows "parsePart L blk = None
    \<and> parseMultipartParts L (blocksBody (boundaryBytesOf boundary) (pre @ blk # post)) boundary =
        List.map_filter (parsePart L) pre @ List.map_filter (parsePart L) post"
proof -
  from assms(2) have none: "parsePart L blk = None"
  proof
    assume "\<not> sublist CRLFCRLF blk"
    then show ?thesis by (rule parsePart_no_separator)
  next
    assume "\<exists>h c. blk = h @ CRLFCRLF @ c \<and> \<not> sublist CRLFCRLF (h @ [13, 10, 13])
        \<and> parseHeaders L (textDecode h) (js ''content-disposition'') = None"
    then obtain h c where b: "blk = h @ CRLFCRLF @ c"
      and s: "\<not> sublist CRLFCRLF (h @ [13, 10, 13])"
      and n: "parseHeaders L (textDecode h) (js ''content-disposition'') = None"
      by blast
    show ?thesis
      unfolding b parsePart_separator [OF s] using n by (simp add: partOfHeaders_no_disposition)
  qed
  have free: "\<not> sublist (boundaryBytesOf boundary) (b @ butlast (boundaryBytesOf boundary))"
    if "b \<in> set (pre @ blk # post)" for b
    using assms(1) that by (auto simp: list_all_iff)
  have "parseMultipartParts L (blocksBody (boundaryBytesOf boundary) (pre @ blk # post) @ []) boundary =
      List.map_filter (parsePart L) (pre @ blk # post)"
    by (rule parseMultipartParts_blocks [OF free]) simp_all
  also have "\<dots> = List.map_filter (parsePart L) pre @ List.map_filter (parsePart L) post"
    using none by (simp add: List.map_filter_def)
  finally show ?thesis
    using none by simp
qed


theorem C5_malformed_block_dropped_witness:
  \<open>list_all (\<lambda>b. \<not> sublist (boundaryBytesOf (js ''B'')) (b @ butlast (boundaryBytesOf (js ''B''))))
     ([encodePart \<lparr> name = js ''a'', filename = None, contentType = None, data = ascii ''1'' \<rparr>]
      @ ascii ''no separator here'' # 
      [encodePart \<lparr> name = js ''b'', filename = None, contentType = None, data = ascii ''2'' \<rparr>])
   \<and> \<not> sublist CRLFCRLF (ascii ''no separator here'')
   \<and> parsePart id (ascii ''no separator here'') = None
   \<and> parseMultipartParts id
        (blocksBody (boundaryBytesOf (js ''B''))
          ([encodePart \<lparr> name = js ''a'', filename = None, contentType = None, data = ascii ''1'' \<rparr>]
           @ ascii ''no separator here'' #
           [encodePart \<lparr> name = js ''b'', filename = None, contentType = None, data = ascii ''2'' \<rparr>]))
        (js ''B'') =
      [\<lparr> name = js ''a'', filename = None, contentType = None, data = ascii ''1'' \<rparr>,
       \<lparr> name = js ''b'', filename = None, contentType = None, data = ascii ''2'' \<rparr>]\<close>
proof -
  let ?a = "\<lparr> name = js ''a'', filename = None, contentType = None, data = ascii ''1'' \<rparr>"
  let ?b = "\<lparr> name = js ''b'', filename = None, contentType = None, data = ascii ''2'' \<rparr>"
  have 1: "list_all (\<lambda>b. \<not> sublist (boundaryBytesOf (js ''B'')) (b @ butlast (boundaryBytesOf (js ''B''))))
      ([encodePart ?a] @ ascii ''no separator here'' # [encodePart ?b])"
    by code_simp
  have 2: "\<not> sublist CRLFCRLF (ascii ''no separator here'')"
    by code_simp
  have a: "encodable ?a" and b: "encodable ?b"
    by code_simp+
  from C5_malformed_block_dropped [OF 1 disjI1 [OF 2], of id] 1 2
  show ?thesis
    by (simp add: parsePart_encodePart [OF a] parsePart_encodePart [OF b])
qed

subsection \<open>C6\<close>

text \<open>
  Claim C6. When the byte pattern \<^verbatim>\<open>'--' + boundary\<close> occurs nowhere in the body,
  \<^verbatim>\<open>parseMultipartParts\<close> returns the empty list, and \<^verbatim>\<open>parseMultipartFormData\<close>, called with
  a Content-Type header that declares this boundary, returns an empty \<^verbatim>\<open>FormData\<close> and no
  error.
\<close>

theorem C6_no_boundary_in_body:
  assumes "\<not> sublist (boundaryBytesOf boundary) uint8Array"
  shows "parseMultipartParts L uint8Array boundary = []
    \<and> (\<forall>ct group1. ct \<noteq> [] \<longrightarrow> strIncludes ct (js ''multipart/form-data'') \<longrightarrow>
          boundaryMatch ct = Some group1 \<longrightarrow> stripQuotes (trim group1) = boundary \<longrightarrow>
          parseMultipartFormData L \<lparr>contentTypeHeader = Some ct, body = uint8Array\<rparr> = Inr [])"
  using parseMultipartParts_no_boundary [OF assms, of L]
  by (simp add: parseMultipartFormData_def orNull_def)

theorem C6_no_boundary_in_body_witness:
  "\<not> sublist (boundaryBytesOf (js ''X'')) (ascii ''hello -X world'')
   \<and> parseMultipartParts id (ascii ''hello -X world'') (js ''X'') = []
   \<and> parseMultipartFormData id
        \<lparr>contentTypeHeader = Some (js ''multipart/form-data; boundary=X''),
         body = ascii ''hello -X world''\<rparr> = Inr []"
proof -
  have h: "\<not> sublist (boundaryBytesOf (js ''X'')) (ascii ''hello -X world'')"
    by code_simp
  have c1: "js ''multipart/form-data; boundary=X'' \<noteq> []"
    by (simp add: js_def)
  have c2: "strIncludes (js ''multipart/form-data; boundary=X'') (js ''multipart/form-data'')"
    by code_simp
  have c3: "boundaryMatch (js ''multipart/form-data; boundary=X'') = Some (js ''X'')"
    by code_simp
  have c4: "stripQuotes (trim (js ''X'')) = js ''X''"
    by code_simp
  from C6_no_boundary_in_body [OF h, of id] h c1 c2 c3 c4 show ?thesis
    by blast
qed

subsection \<open>C7\<close>

lemma isTerminal_in_range: "isTerminal uint8Array position \<Longrightarrow> position + 1 < length uint8Array"
  by (simp add: isTerminal_def byteAt_def split: if_splits)

lemma parseLoop_closing_block:
  assumes "\<not> sublist (boundaryBytesOf boundary) (blk @ butlast (boundaryBytesOf boundary))"
    and "skipCRLF (pre @ blk @ boundaryBytesOf boundary @ 45 # 45 # epi) (length pre) = length pre"
  shows "parseLoop L (pre @ blk @ boundaryBytesOf boundary @ 45 # 45 # epi) boundary (length pre) acc =
     pushPart acc (parsePart L blk)"
proof -
  define bb where "bb = boundaryBytesOf boundary"
  define body where "body = pre @ blk @ bb @ 45 # 45 # epi"
  have lt: "length pre < length body" by (simp add: body_def)
  have skip: "skipCRLF body (length pre) = length pre"
    using assms(2) by (simp add: body_def bb_def)
  have "findBoundary body bb (length pre) = Some (length pre + length blk)"
    unfolding body_def
    by (rule findBoundary_append) (use assms(1) in \<open>simp add: bb_def\<close>)
  then have fb: "findBoundary body bb (skipCRLF body (length pre)) = Some (length pre + length blk)"
    by (simp only: skip)
  have body2: "body = (pre @ blk @ bb) @ 45 # 45 # epi" by (simp add: body_def)
  have "isTerminal body (length (pre @ blk @ bb))"
    unfolding body2 by (subst isTerminal_at_length) simp
  then have t: "isTerminal body (length pre + length blk + length bb)"
    by (simp add: add.assoc)
  have "slice body (length pre) (length pre + length blk) = blk"
    unfolding body_def by (rule slice_append)
  then have sl: "slice body (skipCRLF body (length pre)) (length pre + length blk) = blk"
    by (simp only: skip)
  from parseLoop_step_terminal [OF lt [unfolded bb_def] fb [unfolded bb_def] t [unfolded bb_def], of L acc]
  show ?thesis
    using sl by (simp add: body_def bb_def)
qed

text \<open>
  Claim C7, as amended. When the cursor has been moved past a boundary that closes a block
  (a boundary found inside the loop, that is, any boundary but the first) and the two bytes
  behind it are dashes, parsing stops, and these two bytes lie inside the buffer. A body of
  blocks that ends in the terminal pattern is parsed to the parts of its blocks whatever
  bytes follow the terminal pattern: nothing is returned for the epilogue.
\<close>

theorem C7_terminal_boundary:
  assumes "list_all (\<lambda>b. \<not> sublist (boundaryBytesOf boundary) (b @ butlast (boundaryBytesOf boundary))) blocks"
    and "blocks \<noteq> []"
  shows "(\<forall>position parts nb.
            position < length uint8Array \<longrightarrow>
            findBoundary uint8Array (boundaryBytesOf boundary) (skipCRLF uint8Array position) = Some nb \<longrightarrow>
            isTerminal uint8Array (nb + length (boundaryBytesOf boundary)) \<longrightarrow>
            parseLoop L uint8Array boundary position parts =
              pushPart parts (parsePart L (slice uint8Array (skipCRLF uint8Array position) nb))
            \<and> nb + length (boundaryBytesOf boundary) + 1 < length uint8Array)
    \<and> (\<forall>epi. parseMultipartParts L (blocksBody (boundaryBytesOf boundary) blocks @ epi) boundary =
          List.map_filter (parsePart L) blocks)"
proof (intro conjI allI impI)
  fix position parts nb
  assume "position < length uint8Array"
    and "findBoundary uint8Array (boundaryBytesOf boundary) (skipCRLF uint8Array position) = Some nb"
    and "isTerminal uint8Array (nb + length (boundaryBytesOf boundary))"
  then show "parseLoop L uint8Array boundary position parts =
      pushPart parts (parsePart L (slice uint8Array (skipCRLF uint8Array position) nb))"
    by (rule parseLoop_step_terminal)
next
  fix position parts nb
  assume "isTerminal uint8Array (nb + length (boundaryBytesOf boundary))"
  then show "nb + length (boundaryBytesOf boundary) + 1 < length uint8Array"
    by (rule isTerminal_in_range)
next
  fix epi
  have free: "\<not> sublist (boundaryBytesOf boundary) (b @ butlast (boundaryBytesOf boundary))"
    if "b \<in> set blocks" for b
    using assms(1) that by (auto simp: list_all_iff)
  show "parseMultipartParts L (blocksBody (boundaryBytesOf boundary) blocks @ epi) boundary =
      List.map_filter (parsePart L) blocks"
    by (rule parseMultipartParts_blocks [OF free assms(2)])
qed


text \<open>
  A body whose terminal pattern is followed by an epilogue that holds the boundary pattern
  and a well-formed block.
\<close>

definition epilogueBody :: "byte list" where
  \<open>epilogueBody =
     ascii ''--B'' @ CRLF @ ascii ''Content-Disposition: form-data; name="a"'' @ CRLFCRLF @
     ascii ''1'' @ CRLF @ ascii ''--B--'' @ CRLF @
     ascii ''--B'' @ CRLF @ ascii ''Content-Disposition: form-data; name="late"'' @ CRLFCRLF @
     ascii ''2'' @ CRLF @ ascii ''--B--''\<close>

theorem C7_terminal_boundary_witness:
  \<open>list_all (\<lambda>b. \<not> sublist (boundaryBytesOf (js ''B'')) (b @ butlast (boundaryBytesOf (js ''B''))))
     [encodePart \<lparr> name = js ''a'', filename = None, contentType = None, data = ascii ''1'' \<rparr>]
   \<and> [encodePart \<lparr> name = js ''a'', filename = None, contentType = None, data = ascii ''1'' \<rparr>] \<noteq> []
   \<and> 3 < length epilogueBody
   \<and> findBoundary epilogueBody (boundaryBytesOf (js ''B'')) (skipCRLF epilogueBody 3) = Some 52
   \<and> isTerminal epilogueBody (52 + length (boundaryBytesOf (js ''B'')))
   \<and> parseLoop id epilogueBody (js ''B'') 3 [] =
       pushPart [] (parsePart id (slice epilogueBody (skipCRLF epilogueBody 3) 52))
   \<and> 52 + length (boundaryBytesOf (js ''B'')) + 1 < length epilogueBody
   \<and> parseMultipartParts id epilogueBody (js ''B'') =
       [\<lparr> name = js ''a'', filename = None, contentType = None, data = ascii ''1'' \<rparr>]\<close>
proof -
  let ?a = "\<lparr> name = js ''a'', filename = None, contentType = None, data = ascii ''1'' \<rparr>"
  let ?epi = \<open>CRLF @ ascii ''--B'' @ CRLF @
      ascii ''Content-Disposition: form-data; name="late"'' @ CRLFCRLF @
      ascii ''2'' @ CRLF @ ascii ''--B--''\<close>
  have 1: "list_all (\<lambda>b. \<not> sublist (boundaryBytesOf (js ''B'')) (b @ butlast (boundaryBytesOf (js ''B''))))
      [encodePart ?a]"
    by code_simp
  have 2: "[encodePart ?a] \<noteq> []" by simp
  have b: "epilogueBody = blocksBody (boundaryBytesOf (js ''B'')) [encodePart ?a] @ ?epi"
    by code_simp
  have 3: "3 < length epilogueBody" by code_simp
  have 4: "findBoundary epilogueBody (boundaryBytesOf (js ''B'')) (skipCRLF epilogueBody 3) = Some 52"
    by code_simp
  have 5: "isTerminal epilogueBody (52 + length (boundaryBytesOf (js ''B'')))"
    by code_simp
  have a: "encodable ?a" by code_simp
  from C7_terminal_boundary [OF 1 2, of epilogueBody id]
  have loop: "parseLoop id epilogueBody (js ''B'') 3 [] =
        pushPart [] (parsePart id (slice epilogueBody (skipCRLF epilogueBody 3) 52))
      \<and> 52 + length (boundaryBytesOf (js ''B'')) + 1 < length epilogueBody"
    and whole: "parseMultipartParts id (blocksBody (boundaryBytesOf (js ''B'')) [encodePart ?a] @ ?epi)
        (js ''B'') = List.map_filter (parsePart id) [encodePart ?a]"
    using 3 4 5 by blast+
  from whole have "parseMultipartParts id epilogueBody (js ''B'') = [?a]"
    unfolding b [symmetric] by (simp add: parsePart_encodePart [OF a])
  with 1 2 3 4 5 loop show ?thesis
    by blast
qed

text \<open>
  The claim as stated fails at the first boundary: in the body below the cursor is moved past
  the first matched boundary, the two bytes behind it are dashes, and parsing goes on and
  returns a part.
\<close>

definition leadingTerminalBody :: "byte list" where
  \<open>leadingTerminalBody =
     ascii ''--B--'' @ CRLF @ ascii ''Content-Disposition: form-data; name="a"'' @ CRLFCRLF @
     ascii ''x'' @ CRLF @ ascii ''--B--''\<close>

theorem C7_terminal_boundary_counterexample:
  "findBoundary leadingTerminalBody (boundaryBytesOf (js ''B'')) 0 = Some 0
   \<and> isTerminal leadingTerminalBody (0 + length (boundaryBytesOf (js ''B'')))
   \<and> parseMultipartParts id leadingTerminalBody (js ''B'') =
       [\<lparr> name = js ''a'', filename = None, contentType = None, data = ascii ''x'' \<rparr>]"
proof -
  let ?h = \<open>ascii ''--'' @ CRLF @ ascii ''Content-Disposition: form-data; name="a"''\<close>
  let ?c = "ascii ''x'' @ CRLF"
  have 1: "findBoundary leadingTerminalBody (boundaryBytesOf (js ''B'')) 0 = Some 0"
    by code_simp
  have 2: "isTerminal leadingTerminalBody (0 + length (boundaryBytesOf (js ''B'')))"
    by code_simp
  have b: "leadingTerminalBody =
      ascii ''--B'' @ (?h @ CRLFCRLF @ ?c) @ boundaryBytesOf (js ''B'') @ 45 # 45 # []"
    by code_simp
  have l: "0 + length (boundaryBytesOf (js ''B'')) = length (ascii ''--B'')"
    by code_simp
  have free: "\<not> sublist (boundaryBytesOf (js ''B''))
      ((?h @ CRLFCRLF @ ?c) @ butlast (boundaryBytesOf (js ''B'')))"
    by code_simp
  have skip: "skipCRLF (ascii ''--B'' @ (?h @ CRLFCRLF @ ?c) @ boundaryBytesOf (js ''B'') @ 45 # 45 # [])
      (length (ascii ''--B'')) = length (ascii ''--B'')"
    by code_simp
  have sep: "\<not> sublist CRLFCRLF (?h @ [13, 10, 13])"
    by code_simp
  have asc: "list_all (\<lambda>b. b < 0x80) ?h"
    by code_simp
  have hd: "partOfHeaders (parseHeaders id (map ucast ?h)) (stripFinalCRLF ?c) =
      Some \<lparr> name = js ''a'', filename = None, contentType = None, data = ascii ''x'' \<rparr>"
    by code_simp
  have pp: "parsePart id (?h @ CRLFCRLF @ ?c) =
      Some \<lparr> name = js ''a'', filename = None, contentType = None, data = ascii ''x'' \<rparr>"
    unfolding parsePart_separator [OF sep] textDecode_ascii [OF asc] by (rule hd)
  have "parseLoop id leadingTerminalBody (js ''B'') (0 + length (boundaryBytesOf (js ''B''))) [] =
      pushPart [] (parsePart id (?h @ CRLFCRLF @ ?c))"
    unfolding l b by (rule parseLoop_closing_block [OF free skip])
  then have "parseLoop id leadingTerminalBody (js ''B'') (0 + length (boundaryBytesOf (js ''B''))) [] =
      [\<lparr> name = js ''a'', filename = None, contentType = None, data = ascii ''x'' \<rparr>]"
    unfolding pp by (simp add: pushPart_def)
  then have "parseMultipartParts id leadingTerminalBody (js ''B'') =
      [\<lparr> name = js ''a'', filename = None, contentType = None, data = ascii ''x'' \<rparr>]"
    unfolding parseMultipartParts_def 1 by simp
  with 1 2 show ?thesis by blast
qed

subsection \<open>C8\<close>


text \<open>A header text with two lines for one key, a line without a colon and mixed line ends.\<close>

definition exampleHeaderText :: jsstring where
  "exampleHeaderText =
     js ''X-Tag: one'' @ 0x0D # 0x0A # js ''no colon here'' @ 0x0A # js '' x-tAG :two: 2 ''"



subsection \<open>C9\<close>

text \<open>
  Claim C9. \<^verbatim>\<open>parseMultipartParts\<close> terminates on every byte array and every boundary: run
  with a bound on the iterations of its loop, it returns its result as soon as the bound
  exceeds the bytes that remain behind the cursor, and the length of the array is always
  bound enough. Every iteration that finds a boundary moves the cursor at least by the
  length of the boundary pattern, which is at least 2, and never beyond the end of the array.
  (The two loops of \<^verbatim>\<open>findSequence\<close> count up to a fixed bound; their model is total by
  its termination proofs.)
\<close>

theorem C9_termination:
  "parseMultipartPartsFuel (length uint8Array) L uint8Array boundary =
     Some (parseMultipartParts L uint8Array boundary)
   \<and> (\<forall>n position parts. length uint8Array - position < n \<longrightarrow>
         parseLoopFuel n L uint8Array boundary position parts =
           Some (parseLoop L uint8Array boundary position parts))
   \<and> (\<forall>position nb.
         findBoundary uint8Array (boundaryBytesOf boundary) (skipCRLF uint8Array position) = Some nb \<longrightarrow>
         position + length (boundaryBytesOf boundary) \<le> nb + length (boundaryBytesOf boundary)
         \<and> nb + length (boundaryBytesOf boundary) \<le> length uint8Array
         \<and> 2 \<le> length (boundaryBytesOf boundary))"
proof (intro conjI allI impI)
  show "parseMultipartPartsFuel (length uint8Array) L uint8Array boundary =
      Some (parseMultipartParts L uint8Array boundary)"
    by (rule parseMultipartPartsFuel_enough)
next
  fix n position parts
  assume "length uint8Array - position < n"
  then show "parseLoopFuel n L uint8Array boundary position parts =
      Some (parseLoop L uint8Array boundary position parts)"
    by (rule parseLoopFuel_enough)
next
  fix position nb
  assume f: "findBoundary uint8Array (boundaryBytesOf boundary) (skipCRLF uint8Array position) = Some nb"
  from findBoundary_ge [OF f] skipCRLF_ge [of position uint8Array]
  show "position + length (boundaryBytesOf boundary) \<le> nb + length (boundaryBytesOf boundary)"
    by simp
  have s: "skipCRLF uint8Array position \<le> length uint8Array"
  proof (rule ccontr)
    assume "\<not> skipCRLF uint8Array position \<le> length uint8Array"
    then have "int (skipCRLF uint8Array position) >
        int (length uint8Array) - int (length (boundaryBytesOf boundary))"
      by simp
    then have "findBoundary uint8Array (boundaryBytesOf boundary) (skipCRLF uint8Array position) = None"
      by (simp add: findBoundary_def findSequence_def
          findLoop.simps [of uint8Array "boundaryBytesOf boundary" "skipCRLF uint8Array position"])
    with f show False by simp
  qed
  from f obtain r where "firstOccurrence (boundaryBytesOf boundary)
      (drop (skipCRLF uint8Array position) uint8Array) = Some r"
    and "nb = skipCRLF uint8Array position + r"
    by (auto simp: findBoundary_def findSequence_firstOccurrence [OF s])
  with firstOccurrence_Some_le [of "boundaryBytesOf boundary"
      "drop (skipCRLF uint8Array position) uint8Array" r] s
  show "nb + length (boundaryBytesOf boundary) \<le> length uint8Array"
    by simp
  show "2 \<le> length (boundaryBytesOf boundary)"
    by (rule boundaryBytesOf_length)
qed

theorem C9_termination_witness:
  "parseMultipartPartsFuel (length (ascii ''--B'' @ CRLF @ ascii ''x--B--'')) id
     (ascii ''--B'' @ CRLF @ ascii ''x--B--'') (js ''B'') =
     Some (parseMultipartParts id (ascii ''--B'' @ CRLF @ ascii ''x--B--'') (js ''B''))
   \<and> length (ascii ''--B'' @ CRLF @ ascii ''x--B--'') - 3 < 9
   \<and> parseLoopFuel 9 id (ascii ''--B'' @ CRLF @ ascii ''x--B--'') (js ''B'') 3 [] =
       Some (parseLoop id (ascii ''--B'' @ CRLF @ ascii ''x--B--'') (js ''B'') 3 [])
   \<and> findBoundary (ascii ''--B'' @ CRLF @ ascii ''x--B--'') (boundaryBytesOf (js ''B''))
        (skipCRLF (ascii ''--B'' @ CRLF @ ascii ''x--B--'') 3) = Some 6
   \<and> 3 + length (boundaryBytesOf (js ''B'')) \<le> 6 + length (boundaryBytesOf (js ''B''))
   \<and> 6 + length (boundaryBytesOf (js ''B'')) \<le> length (ascii ''--B'' @ CRLF @ ascii ''x--B--'')
   \<and> 2 \<le> length (boundaryBytesOf (js ''B''))"
proof -
  have 1: "length (ascii ''--B'' @ CRLF @ ascii ''x--B--'') - 3 < 9"
    by code_simp
  have 2: "findBoundary (ascii ''--B'' @ CRLF @ ascii ''x--B--'') (boundaryBytesOf (js ''B''))
      (skipCRLF (ascii ''--B'' @ CRLF @ ascii ''x--B--'') 3) = Some 6"
    by code_simp
  from C9_termination [of "ascii ''--B'' @ CRLF @ ascii ''x--B--''" id "js ''B''"] 1 2
  show ?thesis by blast
qed

subsection \<open>C10\<close>

lemma matchQuoted_nonempty: "matchQuoted key s = Some v \<Longrightarrow> v \<noteq> []"
proof (induction s)
  case Nil
  then show ?case by simp
next
  case (Cons c s)
  show ?case
  proof (cases "prefix key (c # s)")
    case False
    with Cons.prems have "matchQuoted key s = Some v"
      by (simp only: matchQuoted_Cons if_False)
    then show ?thesis by (rule Cons.IH)
  next
    case True
    show ?thesis
    proof (cases "quotedRun (drop (length key) (c # s))")
      case None
      with True Cons.prems have "matchQuoted key s = Some v"
        by (simp only: matchQuoted_Cons if_True option.case)
      then show ?thesis by (rule Cons.IH)
    next
      case (Some run)
      with True Cons.prems have "v = run" by (simp only: matchQuoted_Cons if_True option.case) simp
      moreover from Some have "run \<noteq> []"
        by (auto simp: quotedRun_def Let_def split: if_splits)
      ultimately show ?thesis by simp
    qed
  qed
qed

lemma usvString_ascii: "isAscii s \<Longrightarrow> usvString s = s"
proof -
  assume a: "isAscii s"
  have "concat (map unitsOf (map unat s)) = s"
    using a
  proof (induction s)
    case Nil
    then show ?case by simp
  next
    case (Cons c s)
    then have "unat c < 0x80" by (simp add: isAscii_def ascii_unit_props)
    then have "unat c < 0x10000" by simp
    with Cons show ?case by (simp add: unitsOf_def isAscii_def)
  qed
  with a show ?thesis by (simp add: usvString_def toCodePoints_ascii)
qed



end
